theory Spec2Isabelle
  imports Complex_Main "HOL-Library.Word" "HOL-Library.Log_Nat"
begin

section \<open>ExactFloat: the arbitrary-precision number of s2/util/math/exactfloat\<close>

text \<open>
  The development embeds \<^verbatim>\<open>src/s2/util/math/exactfloat/exactfloat.cc\<close>.
  An \<^verbatim>\<open>ExactFloat\<close> holds a sign (\<^verbatim>\<open>sign_\<close>, +1 or -1), a binary exponent
  (\<^verbatim>\<open>bn_exp_\<close>) and an OpenSSL \<^verbatim>\<open>BIGNUM\<close> mantissa (\<^verbatim>\<open>bn_\<close>).  A BIGNUM is a
  sign-magnitude integer of unbounded size, modelled by \<^typ>\<open>int\<close>.  Isabelle names cannot
  end in an underscore, so the three fields are written \<open>sign_m\<close>, \<open>bn_exp_m\<close> and \<open>bn_m\<close>.
\<close>

subsection \<open>Constants of the class declaration\<close>

text \<open>
  The header \<^verbatim>\<open>exactfloat.h\<close> is not among the sources, so the constants it declares are
  parameters of the model.  The only constraints the implementation file states are its
  \<^verbatim>\<open>static_assert\<close> (lines 47-49) and the remarks that the three special exponents are
  caught by tests such as \<^verbatim>\<open>bit_exp - bn_exp_ <= 0\<close> (lines 295-298), that is, they lie
  above every exponent the arithmetic can form.
\<close>

record xf_consts =
  kMinExp :: int
  kMaxExp :: int
  kMaxPrec :: int
  kExpZero :: int
  kExpInfinity :: int
  kExpNaN :: int

definition INT_MAX :: int where
  "INT_MAX = 2147483647"

definition INT_MIN :: int where
  "INT_MIN = - 2147483648"

definition c_div :: "int \<Rightarrow> int \<Rightarrow> int" where
  \<comment> \<open>C++ integer division truncates toward zero.\<close>
  "c_div a b = sgn a * sgn b * (\<bar>a\<bar> div \<bar>b\<bar>)"

definition consts_ok :: "xf_consts \<Rightarrow> bool" where
  \<comment> \<open>The \<^verbatim>\<open>static_assert\<close> of lines 47-49, a non-empty exponent range, a precision that
      admits \<^verbatim>\<open>max_prec >= 2\<close> (line 277), and three distinct special exponents that fit
      an \<^verbatim>\<open>int\<close> and lie above twice the largest exponent (the largest sum a product forms).\<close>
  "consts_ok K \<longleftrightarrow>
     kMaxExp K \<le> c_div INT_MAX 2 \<and>
     kMinExp K - kMaxPrec K \<ge> c_div INT_MIN 2 \<and>
     kMinExp K \<le> 0 \<and> 0 < kMaxExp K \<and> 2 \<le> kMaxPrec K \<and>
     2 * kMaxExp K < kExpZero K \<and> 2 * kMaxExp K < kExpInfinity K \<and> 2 * kMaxExp K < kExpNaN K \<and>
     kExpZero K \<noteq> kExpInfinity K \<and> kExpZero K \<noteq> kExpNaN K \<and> kExpInfinity K \<noteq> kExpNaN K \<and>
     kExpZero K \<le> INT_MAX \<and> kExpInfinity K \<le> INT_MAX \<and> kExpNaN K \<le> INT_MAX"

definition sample_consts :: xf_consts where
  \<comment> \<open>One admissible choice of the constants, used to run the model on concrete inputs.\<close>
  "sample_consts = \<lparr> kMinExp = - 200000000, kMaxExp = 200000000, kMaxPrec = 67108864,
      kExpZero = 2147483645, kExpInfinity = 2147483646, kExpNaN = 2147483647 \<rparr>"

definition tiny_consts :: xf_consts where
  \<comment> \<open>A second admissible choice with a small precision limit, so that mantissas wider than
      the limit can be written down.\<close>
  "tiny_consts = \<lparr> kMinExp = - 1100, kMaxExp = 1100, kMaxPrec = 64,
      kExpZero = 2147483645, kExpInfinity = 2147483646, kExpNaN = 2147483647 \<rparr>"

definition kDoubleMantissaBits :: int where
  \<comment> \<open>"the number of mantissa bits in a double (53, including the leading 1)", lines 180-182.\<close>
  "kDoubleMantissaBits = 53"

subsection \<open>The OpenSSL BIGNUM interface\<close>

definition BN_num_bits :: "int \<Rightarrow> int" where
  "BN_num_bits bn = bitlen \<bar>bn\<bar>"

definition BN_num_bytes :: "int \<Rightarrow> nat" where
  "BN_num_bytes bn = nat ((BN_num_bits bn + 7) div 8)"

definition BN_is_zero :: "int \<Rightarrow> bool" where
  "BN_is_zero bn \<longleftrightarrow> bn = 0"

definition BN_is_odd :: "int \<Rightarrow> bool" where
  "BN_is_odd bn \<longleftrightarrow> odd bn"

definition BN_is_negative :: "int \<Rightarrow> bool" where
  "BN_is_negative bn \<longleftrightarrow> bn < 0"

definition BN_is_bit_set :: "int \<Rightarrow> int \<Rightarrow> bool" where
  \<comment> \<open>Bit \<open>n\<close> of the magnitude; false for a negative index.\<close>
  "BN_is_bit_set bn n \<longleftrightarrow> 0 \<le> n \<and> odd (\<bar>bn\<bar> div 2 ^ nat n)"

definition BN_lshift :: "int \<Rightarrow> int \<Rightarrow> int" where
  "BN_lshift bn n = bn * 2 ^ nat n"

definition BN_rshift :: "int \<Rightarrow> int \<Rightarrow> int" where
  \<comment> \<open>The magnitude is shifted; the sign is kept.\<close>
  "BN_rshift bn n = sgn bn * (\<bar>bn\<bar> div 2 ^ nat n)"

definition BN_ucmp :: "int \<Rightarrow> int \<Rightarrow> int" where
  \<comment> \<open>Compares magnitudes: -1, 0 or 1.\<close>
  "BN_ucmp a b = (if \<bar>a\<bar> < \<bar>b\<bar> then - 1 else if \<bar>a\<bar> = \<bar>b\<bar> then 0 else 1)"

fun BN_bn2lebinpad :: "nat \<Rightarrow> nat \<Rightarrow> nat list" where
  \<comment> \<open>The magnitude as \<open>len\<close> little-endian bytes.\<close>
  "BN_bn2lebinpad m 0 = []"
| "BN_bn2lebinpad m (Suc len) = (m mod 256) # BN_bn2lebinpad (m div 256) len"

subsection \<open>Counting low-order zero bits (lines 144-164)\<close>

fun low_zero_bits_of_byte :: "nat \<Rightarrow> nat" where
  \<comment> \<open>\<^verbatim>\<open>for (; (c & 1) == 0; c >>= 1) ++count;\<close> for a byte \<open>c \<noteq> 0\<close>.\<close>
  "low_zero_bits_of_byte c =
     (if c = 0 then 0 else if c mod 2 = 0 then Suc (low_zero_bits_of_byte (c div 2)) else 0)"

declare low_zero_bits_of_byte.simps [simp del]

fun count_low_zero_bits_loop :: "nat list \<Rightarrow> nat \<Rightarrow> nat" where
  \<comment> \<open>\<^verbatim>\<open>for (unsigned char c : bytes)\<close>: a zero byte adds 8, the first nonzero byte ends the loop.\<close>
  "count_low_zero_bits_loop [] count = count"
| "count_low_zero_bits_loop (c # cs) count =
     (if c = 0 then count_low_zero_bits_loop cs (count + 8)
      else count + low_zero_bits_of_byte c)"

definition BN_ext_count_low_zero_bits :: "int \<Rightarrow> int" where
  "BN_ext_count_low_zero_bits bn =
     int (count_low_zero_bits_loop (BN_bn2lebinpad (nat \<bar>bn\<bar>) (BN_num_bytes bn)) 0)"

subsection \<open>The value type and its inline accessors\<close>

record ExactFloat =
  sign_m :: int
  bn_exp_m :: int
  bn_m :: int

definition is_zero :: "xf_consts \<Rightarrow> ExactFloat \<Rightarrow> bool" where
  \<comment> \<open>Modelled from the spec: the inline accessors of the absent header; "three sentinel
      values encode zero, infinity, and NaN".\<close>
  "is_zero K x \<longleftrightarrow> bn_exp_m x = kExpZero K"

definition is_inf :: "xf_consts \<Rightarrow> ExactFloat \<Rightarrow> bool" where
  \<comment> \<open>Modelled from the spec: see \<open>is_zero\<close>.\<close>
  "is_inf K x \<longleftrightarrow> bn_exp_m x = kExpInfinity K"

definition is_nan :: "xf_consts \<Rightarrow> ExactFloat \<Rightarrow> bool" where
  \<comment> \<open>Modelled from the spec: see \<open>is_zero\<close>.\<close>
  "is_nan K x \<longleftrightarrow> bn_exp_m x = kExpNaN K"

definition is_normal :: "xf_consts \<Rightarrow> ExactFloat \<Rightarrow> bool" where
  \<comment> \<open>Modelled from the spec: a value is normal when it is in none of the three special states.\<close>
  "is_normal K x \<longleftrightarrow> \<not> is_zero K x \<and> \<not> is_inf K x \<and> \<not> is_nan K x"

definition CopyWithSign :: "ExactFloat \<Rightarrow> int \<Rightarrow> ExactFloat" where
  \<comment> \<open>Modelled from the spec: the inline helper of the absent header; a copy whose sign field
      is replaced.\<close>
  "CopyWithSign x s = x\<lparr> sign_m := s \<rparr>"

definition prec :: "ExactFloat \<Rightarrow> int" where
  "prec x = BN_num_bits (bn_m x)"

definition exp_xf :: "ExactFloat \<Rightarrow> int" where
  \<comment> \<open>\<^verbatim>\<open>ExactFloat::exp()\<close>, lines 226-229.\<close>
  "exp_xf x = bn_exp_m x + BN_num_bits (bn_m x)"

definition set_zero :: "xf_consts \<Rightarrow> int \<Rightarrow> ExactFloat" where
  "set_zero K s = \<lparr> sign_m = s, bn_exp_m = kExpZero K, bn_m = 0 \<rparr>"

definition set_inf :: "xf_consts \<Rightarrow> int \<Rightarrow> ExactFloat" where
  "set_inf K s = \<lparr> sign_m = s, bn_exp_m = kExpInfinity K, bn_m = 0 \<rparr>"

definition set_nan :: "xf_consts \<Rightarrow> ExactFloat" where
  "set_nan K = \<lparr> sign_m = 1, bn_exp_m = kExpNaN K, bn_m = 0 \<rparr>"

definition SignedZero :: "xf_consts \<Rightarrow> int \<Rightarrow> ExactFloat" where
  "SignedZero K s = set_zero K s"

definition Infinity :: "xf_consts \<Rightarrow> int \<Rightarrow> ExactFloat" where
  "Infinity K s = set_inf K s"

definition NaN :: "xf_consts \<Rightarrow> ExactFloat" where
  "NaN K = set_nan K"

subsection \<open>Canonicalize (lines 582-606)\<close>

definition Canonicalize :: "xf_consts \<Rightarrow> ExactFloat \<Rightarrow> ExactFloat" where
  "Canonicalize K x =
     (if \<not> is_normal K x then x
      else
        let my_exp = exp_xf x;
            y = (if my_exp < kMinExp K \<or> BN_is_zero (bn_m x) then set_zero K (sign_m x)
                 else if my_exp > kMaxExp K then set_inf K (sign_m x)
                 else if \<not> BN_is_odd (bn_m x) then
                   (let shift = BN_ext_count_low_zero_bits (bn_m x)
                    in if shift > 0
                       then x\<lparr> bn_m := BN_rshift (bn_m x) shift, bn_exp_m := bn_exp_m x + shift \<rparr>
                       else x)
                 else x)
        in if prec y > kMaxPrec K then set_nan K else y)"

subsection \<open>Addition and subtraction (lines 514-580)\<close>

definition SignedSum :: "xf_consts \<Rightarrow> int \<Rightarrow> ExactFloat \<Rightarrow> int \<Rightarrow> ExactFloat \<Rightarrow> ExactFloat" where
  "SignedSum K a_sign a b_sign b =
     (if \<not> is_normal K a \<or> \<not> is_normal K b then
        (if is_nan K a then a
         else if is_nan K b then b
         else if is_inf K a then
           (if is_inf K b \<and> a_sign \<noteq> b_sign then NaN K else Infinity K a_sign)
         else if is_inf K b then Infinity K b_sign
         else if is_zero K a then
           (if \<not> is_zero K b then CopyWithSign b b_sign
            else if a_sign = b_sign then SignedZero K a_sign
            else SignedZero K 1)
         else CopyWithSign a a_sign)
      else
        let swap = bn_exp_m a < bn_exp_m b;
            a_sign' = (if swap then b_sign else a_sign);
            b_sign' = (if swap then a_sign else b_sign);
            a' = (if swap then b else a);
            b' = (if swap then a else b);
            a_bn = (if bn_exp_m a' > bn_exp_m b'
                    then BN_lshift (bn_m a') (bn_exp_m a' - bn_exp_m b') else bn_m a');
            r = (if a_sign' = b_sign'
                 then \<lparr> sign_m = a_sign', bn_exp_m = bn_exp_m b', bn_m = a_bn + bn_m b' \<rparr>
                 else
                   (let d = a_bn - bn_m b'
                    in if BN_is_zero d then \<lparr> sign_m = 1, bn_exp_m = bn_exp_m b', bn_m = d \<rparr>
                       else if BN_is_negative d
                         then \<lparr> sign_m = b_sign', bn_exp_m = bn_exp_m b', bn_m = \<bar>d\<bar> \<rparr>
                       else \<lparr> sign_m = a_sign', bn_exp_m = bn_exp_m b', bn_m = d \<rparr>))
        in Canonicalize K r)"

definition plus_xf :: "xf_consts \<Rightarrow> ExactFloat \<Rightarrow> ExactFloat \<Rightarrow> ExactFloat" where
  \<comment> \<open>\<^verbatim>\<open>operator+\<close>, lines 516-518.\<close>
  "plus_xf K a b = SignedSum K (sign_m a) a (sign_m b) b"

definition minus_xf :: "xf_consts \<Rightarrow> ExactFloat \<Rightarrow> ExactFloat \<Rightarrow> ExactFloat" where
  \<comment> \<open>\<^verbatim>\<open>operator-\<close>, lines 520-522.\<close>
  "minus_xf K a b = SignedSum K (sign_m a) a (- sign_m b) b"

definition neg_xf :: "ExactFloat \<Rightarrow> ExactFloat" where
  \<comment> \<open>Unary \<^verbatim>\<open>operator-\<close>, line 514.\<close>
  "neg_xf a = CopyWithSign a (- sign_m a)"

subsection \<open>Multiplication (lines 608-634)\<close>

definition times_xf :: "xf_consts \<Rightarrow> ExactFloat \<Rightarrow> ExactFloat \<Rightarrow> ExactFloat" where
  "times_xf K a b =
     (let result_sign = sign_m a * sign_m b
      in if \<not> is_normal K a \<or> \<not> is_normal K b then
           (if is_nan K a then a
            else if is_nan K b then b
            else if is_inf K a then
              (if is_zero K b then NaN K else Infinity K result_sign)
            else if is_inf K b then
              (if is_zero K a then NaN K else Infinity K result_sign)
            else SignedZero K result_sign)
         else Canonicalize K
           \<lparr> sign_m = result_sign, bn_exp_m = bn_exp_m a + bn_exp_m b, bn_m = bn_m a * bn_m b \<rparr>)"

subsection \<open>Comparison (lines 636-681)\<close>

definition eq_xf :: "xf_consts \<Rightarrow> ExactFloat \<Rightarrow> ExactFloat \<Rightarrow> bool" where
  \<comment> \<open>\<^verbatim>\<open>operator==\<close>.\<close>
  "eq_xf K a b =
     (if is_nan K a \<or> is_nan K b then False
      else if bn_exp_m a \<noteq> bn_exp_m b then False
      else if is_zero K a \<and> is_zero K b then True
      else sign_m a = sign_m b \<and> BN_ucmp (bn_m a) (bn_m b) = 0)"

definition ScaleAndCompare :: "ExactFloat \<Rightarrow> ExactFloat \<Rightarrow> int" where
  "ScaleAndCompare a b =
     BN_ucmp (BN_lshift (bn_m a) (bn_exp_m a - bn_exp_m b)) (bn_m b)"

definition UnsignedLess :: "xf_consts \<Rightarrow> ExactFloat \<Rightarrow> ExactFloat \<Rightarrow> bool" where
  "UnsignedLess K a b =
     (if is_inf K a \<or> is_zero K b then False
      else if is_zero K a \<or> is_inf K b then True
      else
        let cmp = exp_xf a - exp_xf b
        in if cmp \<noteq> 0 then cmp < 0
           else if bn_exp_m a \<ge> bn_exp_m b then ScaleAndCompare a b < 0
           else ScaleAndCompare b a > 0)"

definition less_xf :: "xf_consts \<Rightarrow> ExactFloat \<Rightarrow> ExactFloat \<Rightarrow> bool" where
  \<comment> \<open>\<^verbatim>\<open>operator<\<close>.\<close>
  "less_xf K a b =
     (if is_nan K a \<or> is_nan K b then False
      else if is_zero K a \<and> is_zero K b then False
      else if sign_m a \<noteq> sign_m b then sign_m a < sign_m b
      else if sign_m a > 0 then UnsignedLess K a b
      else UnsignedLess K b a)"

subsection \<open>Rounding (lines 274-345, 714-732)\<close>

datatype RoundingMode =
  kRoundTiesToEven | kRoundTiesAwayFromZero | kRoundTowardZero
  | kRoundAwayFromZero | kRoundTowardPositive | kRoundTowardNegative

definition RoundToPowerOf2 :: "xf_consts \<Rightarrow> ExactFloat \<Rightarrow> int \<Rightarrow> RoundingMode \<Rightarrow> ExactFloat" where
  "RoundToPowerOf2 K x bit_exp mode =
     (let shift = bit_exp - bn_exp_m x
      in if shift \<le> 0 then x
         else
           let mode1 =
                 (if mode = kRoundTowardPositive
                    then (if sign_m x > 0 then kRoundAwayFromZero else kRoundTowardZero)
                  else if mode = kRoundTowardNegative
                    then (if sign_m x > 0 then kRoundTowardZero else kRoundAwayFromZero)
                  else mode);
               increment =
                 (if mode1 = kRoundTowardZero then False
                  else if mode1 = kRoundTiesAwayFromZero
                    then BN_is_bit_set (bn_m x) (shift - 1)
                  else if mode1 = kRoundAwayFromZero
                    then BN_ext_count_low_zero_bits (bn_m x) < shift
                  else BN_is_bit_set (bn_m x) (shift - 1) \<and>
                       (BN_is_bit_set (bn_m x) shift \<or>
                        BN_ext_count_low_zero_bits (bn_m x) < shift - 1));
               shifted = BN_rshift (bn_m x) shift;
               r_bn = (if increment then shifted + 1 else shifted)
           in Canonicalize K
                \<lparr> sign_m = sign_m x, bn_exp_m = bn_exp_m x + shift, bn_m = r_bn \<rparr>)"

definition RoundToMaxPrec :: "xf_consts \<Rightarrow> ExactFloat \<Rightarrow> int \<Rightarrow> RoundingMode \<Rightarrow> ExactFloat" where
  "RoundToMaxPrec K x max_prec mode =
     (let shift = prec x - max_prec
      in if shift \<le> 0 then x else RoundToPowerOf2 K x (bn_exp_m x + shift) mode)"

definition ceil_xf :: "xf_consts \<Rightarrow> ExactFloat \<Rightarrow> ExactFloat" where
  "ceil_xf K a = RoundToPowerOf2 K a 0 kRoundTowardPositive"

definition floor_xf :: "xf_consts \<Rightarrow> ExactFloat \<Rightarrow> ExactFloat" where
  "floor_xf K a = RoundToPowerOf2 K a 0 kRoundTowardNegative"

definition trunc_xf :: "xf_consts \<Rightarrow> ExactFloat \<Rightarrow> ExactFloat" where
  "trunc_xf K a = RoundToPowerOf2 K a 0 kRoundTowardZero"

definition round_xf :: "xf_consts \<Rightarrow> ExactFloat \<Rightarrow> ExactFloat" where
  "round_xf K a = RoundToPowerOf2 K a 0 kRoundTiesAwayFromZero"

definition rint_xf :: "xf_consts \<Rightarrow> ExactFloat \<Rightarrow> ExactFloat" where
  "rint_xf K a = RoundToPowerOf2 K a 0 kRoundTiesToEven"

subsection \<open>Scaling by a power of two (lines 787-801) and the remaining sign operations\<close>

definition ldexp_xf :: "xf_consts \<Rightarrow> ExactFloat \<Rightarrow> int \<Rightarrow> ExactFloat" where
  "ldexp_xf K a e =
     (if \<not> is_normal K a then a
      else
        let a_exp = exp_xf a;
            e1 = min (kMaxExp K + 1 - a_exp) (max (kMinExp K - 1 + a_exp) e)
        in Canonicalize K (a\<lparr> bn_exp_m := bn_exp_m a + e1 \<rparr>))"

definition abs_xf :: "ExactFloat \<Rightarrow> ExactFloat" where
  "abs_xf a = CopyWithSign a 1"

definition copysign_xf :: "ExactFloat \<Rightarrow> ExactFloat \<Rightarrow> ExactFloat" where
  "copysign_xf a b = CopyWithSign a (sign_m b)"

subsection \<open>Construction from an int (lines 192-199)\<close>

definition ExactFloat_of_int :: "xf_consts \<Rightarrow> int \<Rightarrow> ExactFloat" where
  "ExactFloat_of_int K v =
     Canonicalize K \<lparr> sign_m = (if v \<ge> 0 then 1 else - 1), bn_exp_m = 0, bn_m = \<bar>v\<bar> \<rparr>"

subsection \<open>Representation invariant and represented value\<close>

definition canonical :: "xf_consts \<Rightarrow> ExactFloat \<Rightarrow> bool" where
  \<comment> \<open>The form every constructor and operation is meant to return: a sign of +1 or -1; for a
      normal value an odd mantissa, an exponent \<^verbatim>\<open>exp()\<close> within \<open>[kMinExp, kMaxExp]\<close> and at
      most \<open>kMaxPrec\<close> mantissa bits; for zero, infinity and NaN the mantissa 0.\<close>
  "canonical K x \<longleftrightarrow>
     (sign_m x = 1 \<or> sign_m x = - 1) \<and>
     (if is_normal K x
      then odd (bn_m x) \<and> 0 < bn_m x \<and> kMinExp K \<le> exp_xf x \<and> exp_xf x \<le> kMaxExp K
           \<and> prec x \<le> kMaxPrec K
      else bn_m x = 0)"

definition value_of :: "ExactFloat \<Rightarrow> real" where
  \<comment> \<open>The real number a normal value (or a zero) stands for: \<open>sign * mantissa * 2 ^ bn_exp\<close>.\<close>
  "value_of x = of_int (sign_m x * bn_m x) * 2 powi bn_exp_m x"

definition odd_part :: "int \<Rightarrow> int" where
  \<comment> \<open>The magnitude with its low-order zero bits removed.\<close>
  "odd_part n = \<bar>n\<bar> div 2 ^ low_zero_bits_of_byte (nat \<bar>n\<bar>)"

subsection \<open>Reference descriptions used to state results about sums\<close>

definition aligned_sum :: "int \<Rightarrow> ExactFloat \<Rightarrow> int \<Rightarrow> ExactFloat \<Rightarrow> ExactFloat" where
  \<comment> \<open>A description, without the swap, of the value that the normal-operand branch of
      \<^verbatim>\<open>SignedSum\<close> builds before it calls \<^verbatim>\<open>Canonicalize\<close>: the common exponent is the smaller
      \<^verbatim>\<open>bn_exp_\<close>, the mantissa of the operand with the larger \<^verbatim>\<open>bn_exp_\<close> is shifted left by
      the difference, and the signed mantissas are added.  It is compared with
      \<open>SignedSum\<close> in lemma \<open>SignedSum_aligned\<close>.\<close>
  "aligned_sum a_sign a b_sign b =
     (let e = min (bn_exp_m a) (bn_exp_m b);
          t = a_sign * (bn_m a * 2 ^ nat (bn_exp_m a - e))
            + b_sign * (bn_m b * 2 ^ nat (bn_exp_m b - e))
      in \<lparr> sign_m = (if t < 0 then - 1 else 1), bn_exp_m = e, bn_m = \<bar>t\<bar> \<rparr>)"

definition fits :: "xf_consts \<Rightarrow> ExactFloat \<Rightarrow> bool" where
  \<comment> \<open>The value is nonzero, its exponent \<^verbatim>\<open>exp()\<close> lies in \<open>[kMinExp, kMaxExp]\<close> and its
      mantissa, once the low-order zero bits are removed, has at most \<open>kMaxPrec\<close> bits.\<close>
  "fits K r \<longleftrightarrow>
     bn_m r \<noteq> 0 \<and> kMinExp K \<le> exp_xf r \<and> exp_xf r \<le> kMaxExp K
     \<and> bitlen (odd_part (bn_m r)) \<le> kMaxPrec K"

subsection \<open>The extended real number a value that is not NaN stands for\<close>

datatype extended = MinusInf | Finite real | PlusInf

fun ext_less :: "extended \<Rightarrow> extended \<Rightarrow> bool" where
  "ext_less (Finite r) (Finite s) = (r < s)"
| "ext_less MinusInf (Finite s) = True"
| "ext_less MinusInf PlusInf = True"
| "ext_less (Finite r) PlusInf = True"
| "ext_less x y = False"

definition represented :: "xf_consts \<Rightarrow> ExactFloat \<Rightarrow> extended" where
  \<comment> \<open>Meaningful for values that are not NaN: infinities by their sign, both zeros as 0.\<close>
  "represented K x =
     (if is_inf K x then (if sign_m x > 0 then PlusInf else MinusInf)
      else if is_zero K x then Finite 0
      else Finite (value_of x))"

definition mag :: "ExactFloat \<Rightarrow> real" where
  \<comment> \<open>The magnitude \<open>mantissa * 2 ^ bn_exp\<close>, without the sign.\<close>
  "mag x = of_int (bn_m x) * 2 powi bn_exp_m x"

subsection \<open>Decimal digits (lines 427-499)\<close>

definition digit_char :: "nat \<Rightarrow> char" where
  "digit_char d = ''0123456789'' ! d"

fun BN_bn2dec :: "nat \<Rightarrow> string" where
  \<comment> \<open>OpenSSL's decimal rendering of a non-negative BIGNUM, most significant digit first.\<close>
  "BN_bn2dec n = (if n < 10 then [digit_char n] else BN_bn2dec (n div 10) @ [digit_char (n mod 10)])"

declare BN_bn2dec.simps [simp del]

fun increment_from_end :: "string \<Rightarrow> string \<times> bool" where
  \<comment> \<open>The loop of \<^verbatim>\<open>IncrementDecimalDigits\<close> on the reversed string: a digit below '9' is
      incremented and the loop returns (flag \<open>True\<close>); a '9' becomes '0' and the loop goes on.\<close>
  "increment_from_end [] = ([], False)"
| "increment_from_end (c # cs) =
     (if (of_char c :: nat) < of_char CHR ''9'' then (char_of (of_char c + 1 :: nat) # cs, True)
      else (case increment_from_end cs of (r, returned) \<Rightarrow> (CHR ''0'' # r, returned)))"

definition IncrementDecimalDigits :: "string \<Rightarrow> string" where
  "IncrementDecimalDigits digits =
     (case increment_from_end (rev digits) of
        (r, returned) \<Rightarrow> if returned then rev r else CHR ''1'' # rev r)"

definition round_up_test :: "string \<Rightarrow> nat \<Rightarrow> bool" where
  \<comment> \<open>The condition of lines 477-479 under which the kept digits are incremented.\<close>
  "round_up_test all_digits max_digits \<longleftrightarrow>
     (of_char (all_digits ! max_digits) :: nat) \<ge> of_char CHR ''5'' \<and>
     ((of_char (all_digits ! (max_digits - 1)) :: nat) mod 2 = 1 \<or>
      list_ex (\<lambda>c. c \<in> set ''123456789'') (drop (max_digits + 1) all_digits))"

definition GetDecimalDigits :: "ExactFloat \<Rightarrow> nat \<Rightarrow> int \<times> string" where
  \<comment> \<open>Returns the base-10 exponent and the digit string (the \<^verbatim>\<open>digits\<close> out-parameter), for a
      normal value and \<open>max_digits > 0\<close>.\<close>
  "GetDecimalDigits x max_digits =
     (let (bn, bn_exp10) =
            (if bn_exp_m x \<ge> 0 then (BN_lshift (bn_m x) (bn_exp_m x), 0)
             else (5 ^ nat (- bn_exp_m x) * bn_m x, bn_exp_m x));
          all_digits = BN_bn2dec (nat bn);
          num_digits = length all_digits;
          (digits, bn_exp10) =
            (if num_digits \<le> max_digits then (all_digits, bn_exp10)
             else
               (if round_up_test all_digits max_digits
                  then IncrementDecimalDigits (take max_digits all_digits)
                  else take max_digits all_digits,
                bn_exp10 + int num_digits - int max_digits));
          stripped = rev (dropWhile (\<lambda>c. c = CHR ''0'') (rev digits));
          bn_exp10 = bn_exp10 + int (length digits) - int (length stripped)
      in (bn_exp10 + int (length stripped), stripped))"

definition round_half_even_rule :: "nat \<Rightarrow> nat \<Rightarrow> bool" where
  \<comment> \<open>The rule in the words of the specification, for comparison with \<open>round_up_test\<close>: when
      the last \<open>k\<close> decimal digits of \<open>n\<close> are discarded, the kept digits are incremented
      exactly when the discarded fraction exceeds one half, or equals one half and the lowest
      kept digit is odd.\<close>
  "round_half_even_rule n k \<longleftrightarrow>
     2 * (n mod 10 ^ k) > 10 ^ k \<or> (2 * (n mod 10 ^ k) = 10 ^ k \<and> (n div 10 ^ k) mod 2 = 1)"

subsection \<open>IEEE-754 binary64 and the C library calls of the double conversions\<close>

text \<open>
  A \<^verbatim>\<open>double\<close> is its 64-bit pattern: sign bit, 11-bit biased exponent, 52-bit fraction.
  The library functions the conversions call (\<^verbatim>\<open>signbit\<close>, \<^verbatim>\<open>isnan\<close>, \<^verbatim>\<open>isinf\<close>, \<^verbatim>\<open>fabs\<close>,
  \<^verbatim>\<open>frexp\<close>, \<^verbatim>\<open>ldexp\<close>, \<^verbatim>\<open>copysign\<close>, the casts between \<^verbatim>\<open>double\<close> and \<^verbatim>\<open>uint64_t\<close>)
  are not code of the repository; they are modelled by their IEEE-754 / ISO C meaning, with
  round-to-nearest-even as the rounding direction.
\<close>

type_synonym double = "64 word"

definition d_sign :: "double \<Rightarrow> nat" where
  "d_sign d = unat d div 2 ^ 63"

definition d_exp :: "double \<Rightarrow> nat" where
  "d_exp d = (unat d div 2 ^ 52) mod 2 ^ 11"

definition d_frac :: "double \<Rightarrow> nat" where
  "d_frac d = unat d mod 2 ^ 52"

definition mk_double :: "nat \<Rightarrow> nat \<Rightarrow> nat \<Rightarrow> double" where
  "mk_double s e f = of_nat (s * 2 ^ 63 + e * 2 ^ 52 + f)"

definition d_int_mant :: "double \<Rightarrow> nat" where
  \<comment> \<open>The integer significand of a finite double: its magnitude is \<open>d_int_mant * 2 ^ d_int_exp\<close>.\<close>
  "d_int_mant d = (if d_exp d = 0 then d_frac d else 2 ^ 52 + d_frac d)"

definition d_int_exp :: "double \<Rightarrow> int" where
  "d_int_exp d = (if d_exp d = 0 then - 1074 else int (d_exp d) - 1075)"

definition signbit_d :: "double \<Rightarrow> bool" where
  "signbit_d d \<longleftrightarrow> d_sign d = 1"

definition isnan_d :: "double \<Rightarrow> bool" where
  "isnan_d d \<longleftrightarrow> d_exp d = 2047 \<and> d_frac d \<noteq> 0"

definition isinf_d :: "double \<Rightarrow> bool" where
  "isinf_d d \<longleftrightarrow> d_exp d = 2047 \<and> d_frac d = 0"

definition fabs_d :: "double \<Rightarrow> double" where
  "fabs_d d = mk_double 0 (d_exp d) (d_frac d)"

definition copysign_d :: "double \<Rightarrow> int \<Rightarrow> double" where
  \<comment> \<open>\<^verbatim>\<open>copysign(x, s)\<close> for an \<^verbatim>\<open>int\<close> \<open>s\<close>, which is converted to \<^verbatim>\<open>double\<close> first.\<close>
  "copysign_d x s = mk_double (if s < 0 then 1 else 0) (d_exp x) (d_frac x)"

definition d_zero :: double where
  "d_zero = mk_double 0 0 0"

definition d_infinity :: double where
  \<comment> \<open>\<^verbatim>\<open>std::numeric_limits<double>::infinity()\<close>\<close>
  "d_infinity = mk_double 0 2047 0"

definition d_quiet_NaN :: double where
  \<comment> \<open>\<^verbatim>\<open>std::numeric_limits<double>::quiet_NaN()\<close>\<close>
  "d_quiet_NaN = mk_double 0 2047 (2 ^ 51)"

definition rne_shift :: "nat \<Rightarrow> nat \<Rightarrow> nat" where
  \<comment> \<open>\<open>m / 2 ^ s\<close> rounded to the nearest integer, ties to even.\<close>
  "rne_shift m s =
     (let t = m div 2 ^ s; r = m mod 2 ^ s
      in if 2 * r > 2 ^ s \<or> (2 * r = 2 ^ s \<and> t mod 2 = 1) then t + 1 else t)"

definition round_pos :: "nat \<Rightarrow> int \<Rightarrow> nat" where
  \<comment> \<open>The exponent and fraction bits of the double nearest to \<open>m * 2 ^ e\<close> (ties to even):
      the quantum exponent is \<open>max (-1074) (bitlen m + e - 53)\<close>; overflow gives infinity.\<close>
  "round_pos m e =
     (if m = 0 then 0
      else
        let k = bitlen (int m);
            q = max (- 1074) (k + e - 53);
            s = q - e;
            M = (if s \<le> 0 then m * 2 ^ nat (- s) else rne_shift m (nat s));
            bits = nat (q + 1074) * 2 ^ 52 + M
        in if bits \<ge> 2047 * 2 ^ 52 then 2047 * 2 ^ 52 else bits)"

definition ldexp_d :: "double \<Rightarrow> int \<Rightarrow> double" where
  "ldexp_d d n =
     (if d_exp d = 2047 \<or> d_int_mant d = 0 then d
      else of_nat (d_sign d * 2 ^ 63 + round_pos (d_int_mant d) (d_int_exp d + n)))"

definition frexp_frac :: "double \<Rightarrow> double" where
  \<comment> \<open>The value \<^verbatim>\<open>frexp\<close> returns: the fraction in \<open>[0.5, 1)\<close>; zero, infinity and NaN are
      returned as they are.\<close>
  "frexp_frac d =
     (if d_exp d = 2047 \<or> d_int_mant d = 0 then d
      else if d_exp d = 0 then
        mk_double (d_sign d) 1022 (d_frac d * 2 ^ (53 - nat (bitlen (int (d_frac d)))) - 2 ^ 52)
      else mk_double (d_sign d) 1022 (d_frac d))"

definition frexp_exp :: "double \<Rightarrow> int" where
  \<comment> \<open>The exponent \<^verbatim>\<open>frexp\<close> stores through its pointer argument; 0 for zero, infinity and NaN.\<close>
  "frexp_exp d =
     (if d_exp d = 2047 \<or> d_int_mant d = 0 then 0
      else if d_exp d = 0 then bitlen (int (d_frac d)) - 1074
      else int (d_exp d) - 1022)"

definition uint64_of_double :: "double \<Rightarrow> nat" where
  \<comment> \<open>\<^verbatim>\<open>static_cast<uint64_t>\<close> of a finite non-negative double below \<open>2 ^ 64\<close>: truncation.\<close>
  "uint64_of_double d =
     (if d_int_exp d \<ge> 0 then d_int_mant d * 2 ^ nat (d_int_exp d)
      else d_int_mant d div 2 ^ nat (- d_int_exp d))"

definition double_of_uint64 :: "nat \<Rightarrow> double" where
  \<comment> \<open>\<^verbatim>\<open>static_cast<double>\<close> of a \<^verbatim>\<open>uint64_t\<close>.\<close>
  "double_of_uint64 m = of_nat (round_pos m 0)"

definition times_sign :: "int \<Rightarrow> double \<Rightarrow> double" where
  \<comment> \<open>\<^verbatim>\<open>sign_ * x\<close> for \<open>sign_\<close> +1 or -1 and \<open>x\<close> not NaN: the product with 1.0 or -1.0.\<close>
  "times_sign s x = (if s < 0 then mk_double (1 - d_sign x) (d_exp x) (d_frac x) else x)"

definition BN_ext_get_uint64 :: "int \<Rightarrow> nat" where
  \<comment> \<open>"Requires that BIGNUM fits into 64 bits" (lines 62-71, 93-106, 128-142).\<close>
  "BN_ext_get_uint64 bn = nat \<bar>bn\<bar>"

subsection \<open>Conversion from and to double (lines 170-190, 249-272)\<close>

definition ExactFloat_of_double :: "xf_consts \<Rightarrow> double \<Rightarrow> ExactFloat" where
  "ExactFloat_of_double K v =
     (let sign = (if signbit_d v then - 1 else 1)
      in if isnan_d v then set_nan K
         else if isinf_d v then set_inf K sign
         else
           Canonicalize K
             \<lparr> sign_m = sign,
               bn_exp_m = frexp_exp (fabs_d v) - kDoubleMantissaBits,
               bn_m = int (uint64_of_double (ldexp_d (frexp_frac (fabs_d v)) kDoubleMantissaBits)) \<rparr>)"

definition ToDoubleHelper :: "xf_consts \<Rightarrow> ExactFloat \<Rightarrow> double" where
  "ToDoubleHelper K x =
     (if \<not> is_normal K x then
        (if is_zero K x then copysign_d d_zero (sign_m x)
         else if is_inf K x then copysign_d d_infinity (sign_m x)
         else copysign_d d_quiet_NaN (sign_m x))
      else
        times_sign (sign_m x)
          (ldexp_d (double_of_uint64 (BN_ext_get_uint64 (bn_m x))) (bn_exp_m x)))"

definition ToDouble :: "xf_consts \<Rightarrow> ExactFloat \<Rightarrow> double" where
  "ToDouble K x =
     (if prec x \<le> kDoubleMantissaBits then ToDoubleHelper K x
      else ToDoubleHelper K (RoundToMaxPrec K x kDoubleMantissaBits kRoundTiesToEven))"

subsection \<open>The remaining operations that return an ExactFloat (lines 687-707, 776-823)\<close>

definition fmax_xf :: "xf_consts \<Rightarrow> ExactFloat \<Rightarrow> ExactFloat \<Rightarrow> ExactFloat" where
  "fmax_xf K a b =
     (if is_nan K a then b
      else if is_nan K b then a
      else if sign_m a \<noteq> sign_m b then (if sign_m a < sign_m b then b else a)
      else if less_xf K a b then b else a)"

definition fmin_xf :: "xf_consts \<Rightarrow> ExactFloat \<Rightarrow> ExactFloat \<Rightarrow> ExactFloat" where
  "fmin_xf K a b =
     (if is_nan K a then b
      else if is_nan K b then a
      else if sign_m a \<noteq> sign_m b then (if sign_m a < sign_m b then a else b)
      else if less_xf K a b then a else b)"

definition frexp_xf :: "xf_consts \<Rightarrow> ExactFloat \<Rightarrow> ExactFloat \<times> int" where
  \<comment> \<open>The returned fraction and the exponent stored through the pointer.\<close>
  "frexp_xf K a =
     (if \<not> is_normal K a then (a, 0) else (ldexp_xf K a (- exp_xf a), exp_xf a))"

definition scalbln_xf :: "xf_consts \<Rightarrow> ExactFloat \<Rightarrow> int \<Rightarrow> ExactFloat" where
  "scalbln_xf K a e = ldexp_xf K a (max INT_MIN (min INT_MAX e))"

definition logb_xf :: "xf_consts \<Rightarrow> ExactFloat \<Rightarrow> ExactFloat" where
  "logb_xf K a =
     (if is_zero K a then Infinity K (- 1)
      else if is_inf K a then Infinity K 1
      else if is_nan K a then a
      else ExactFloat_of_int K (exp_xf a - 1))"

subsection \<open>The values a program can build\<close>

text \<open>
  The values obtained from the constructors and the public operations of the file.  The
  side conditions are those the code states: a sign argument is +1 or -1, the rounding
  position is at most \<open>kMaxExp\<close> (line 293) and the rounding precision at least 2 (line 277).
  \<^verbatim>\<open>ExactFloat(int)\<close> is left out at \<^verbatim>\<open>INT_MIN\<close>, where \<^verbatim>\<open>abs(v)\<close> is undefined.  \<^verbatim>\<open>fdim\<close>
  returns \<^verbatim>\<open>ExactFloat(0)\<close> or \<^verbatim>\<open>a - b\<close>, so its results are covered by the rules for those.
\<close>

inductive constructed :: "xf_consts \<Rightarrow> ExactFloat \<Rightarrow> bool" for K :: xf_consts where
  of_double: "constructed K (ExactFloat_of_double K d)"
| of_int: "INT_MIN < v \<Longrightarrow> v \<le> INT_MAX \<Longrightarrow> constructed K (ExactFloat_of_int K v)"
| signed_zero: "s = 1 \<or> s = - 1 \<Longrightarrow> constructed K (SignedZero K s)"
| infinity: "s = 1 \<or> s = - 1 \<Longrightarrow> constructed K (Infinity K s)"
| nan: "constructed K (NaN K)"
| neg: "constructed K a \<Longrightarrow> constructed K (neg_xf a)"
| plus: "constructed K a \<Longrightarrow> constructed K b \<Longrightarrow> constructed K (plus_xf K a b)"
| minus: "constructed K a \<Longrightarrow> constructed K b \<Longrightarrow> constructed K (minus_xf K a b)"
| times: "constructed K a \<Longrightarrow> constructed K b \<Longrightarrow> constructed K (times_xf K a b)"
| round_to_power_of_2:
    "constructed K a \<Longrightarrow> bit_exp \<le> kMaxExp K \<Longrightarrow> constructed K (RoundToPowerOf2 K a bit_exp mode)"
| round_to_max_prec:
    "constructed K a \<Longrightarrow> 2 \<le> max_prec \<Longrightarrow> constructed K (RoundToMaxPrec K a max_prec mode)"
| ceil: "constructed K a \<Longrightarrow> constructed K (ceil_xf K a)"
| floor: "constructed K a \<Longrightarrow> constructed K (floor_xf K a)"
| trunc: "constructed K a \<Longrightarrow> constructed K (trunc_xf K a)"
| round: "constructed K a \<Longrightarrow> constructed K (round_xf K a)"
| rint: "constructed K a \<Longrightarrow> constructed K (rint_xf K a)"
| abs: "constructed K a \<Longrightarrow> constructed K (abs_xf a)"
| copysign: "constructed K a \<Longrightarrow> constructed K b \<Longrightarrow> constructed K (copysign_xf a b)"
| fmax: "constructed K a \<Longrightarrow> constructed K b \<Longrightarrow> constructed K (fmax_xf K a b)"
| fmin: "constructed K a \<Longrightarrow> constructed K b \<Longrightarrow> constructed K (fmin_xf K a b)"
| frexp: "constructed K a \<Longrightarrow> constructed K (fst (frexp_xf K a))"
| ldexp: "constructed K a \<Longrightarrow> constructed K (ldexp_xf K a e)"
| scalbln: "constructed K a \<Longrightarrow> constructed K (scalbln_xf K a e)"
| logb: "constructed K a \<Longrightarrow> constructed K (logb_xf K a)"

section \<open>Properties of the BIGNUM helpers\<close>

text \<open>
  The byte loop of \<^verbatim>\<open>BN_ext_count_low_zero_bits\<close> returns the exponent of the largest
  power of two that divides the magnitude, and 0 for the magnitude 0.
\<close>

lemma lzb_spec:
  "0 < c \<Longrightarrow> 2 ^ low_zero_bits_of_byte c dvd c \<and> odd (c div 2 ^ low_zero_bits_of_byte c)"
proof (induction c rule: low_zero_bits_of_byte.induct)
  case (1 c)
  show ?case
  proof (cases "c mod 2 = 0")
    case True
    with "1.prems" have pos: "0 < c div 2" by presburger
    from True have c2: "c = 2 * (c div 2)" by presburger
    have ih: "2 ^ low_zero_bits_of_byte (c div 2) dvd c div 2 \<and>
        odd ((c div 2) div 2 ^ low_zero_bits_of_byte (c div 2))"
      using "1.IH" [OF _ True pos] "1.prems" by simp
    have e: "low_zero_bits_of_byte c = Suc (low_zero_bits_of_byte (c div 2))"
      using True "1.prems" by (simp add: low_zero_bits_of_byte.simps [of c])
    have d1: "2 ^ Suc (low_zero_bits_of_byte (c div 2)) dvd c"
    proof -
      have "2 * 2 ^ low_zero_bits_of_byte (c div 2) dvd 2 * (c div 2)"
        using ih by simp
      then show ?thesis using c2 by simp
    qed
    have d2: "c div 2 ^ Suc (low_zero_bits_of_byte (c div 2))
        = (c div 2) div 2 ^ low_zero_bits_of_byte (c div 2)"
      by (simp add: div_mult2_eq)
    show ?thesis using e d1 d2 ih by simp
  next
    case False
    then have "odd c" by presburger
    then show ?thesis using False "1.prems" by (simp add: low_zero_bits_of_byte.simps [of c])
  qed
qed

lemma lzb_unique:
  "0 < (c::nat) \<Longrightarrow> 2 ^ k dvd c \<Longrightarrow> odd (c div 2 ^ k) \<Longrightarrow> low_zero_bits_of_byte c = k"
proof (induction c arbitrary: k rule: low_zero_bits_of_byte.induct)
  case (1 c)
  show ?case
  proof (cases "c mod 2 = 0")
    case True
    then have "even c" by presburger
    with "1.prems"(3) obtain k' where k: "k = Suc k'"
      by (cases k) auto
    from True "1.prems"(1) have pos: "0 < c div 2" by presburger
    have a: "2 ^ k' dvd c div 2"
    proof -
      have "2 * 2 ^ k' dvd 2 * (c div 2)"
        using "1.prems"(2) k \<open>even c\<close> by simp
      then show ?thesis by simp
    qed
    have b: "odd ((c div 2) div 2 ^ k')"
      using "1.prems"(3) k by (simp add: div_mult2_eq)
    have "low_zero_bits_of_byte (c div 2) = k'"
      using "1.IH" [OF _ True pos a b] "1.prems"(1) by simp
    then show ?thesis using True "1.prems"(1) k by (simp add: low_zero_bits_of_byte.simps [of c])
  next
    case False
    then have "odd c" by presburger
    have "k = 0"
    proof (rule ccontr)
      assume "k \<noteq> 0"
      then have "(2::nat) dvd 2 ^ k" by simp
      then have "2 dvd c" using "1.prems"(2) dvd_trans by blast
      with \<open>odd c\<close> show False by simp
    qed
    then show ?thesis using False by (simp add: low_zero_bits_of_byte.simps [of c])
  qed
qed

lemma lzb_mult256:
  assumes "0 < m"
  shows "low_zero_bits_of_byte (256 * m) = 8 + low_zero_bits_of_byte m"
proof (rule lzb_unique)
  let ?j = "low_zero_bits_of_byte m"
  have p: "(2::nat) ^ (8 + ?j) = 256 * 2 ^ ?j" by (simp add: power_add)
  show "0 < 256 * m" using assms by simp
  show "2 ^ (8 + ?j) dvd 256 * m"
    unfolding p using lzb_spec [OF assms] by (simp add: mult_dvd_mono)
  have "(256 * m) div (256 * 2 ^ ?j) = m div 2 ^ ?j" by simp
  then show "odd (256 * m div 2 ^ (8 + ?j))"
    unfolding p using lzb_spec [OF assms] by simp
qed

lemma lzb_mod256:
  assumes "m mod 256 \<noteq> 0"
  shows "low_zero_bits_of_byte (m mod 256) = low_zero_bits_of_byte m"
proof -
  define r where "r = m mod 256"
  define j where "j = low_zero_bits_of_byte r"
  have r: "0 < r" using assms by (simp add: r_def)
  have sp: "2 ^ j dvd r" "odd (r div 2 ^ j)"
    using lzb_spec [OF r] by (simp_all add: j_def)
  have "2 ^ j \<le> r" using sp(1) r by (simp add: dvd_imp_le)
  also have "r < 2 ^ 8" by (simp add: r_def)
  finally have lt: "(2::nat) ^ j < 2 ^ 8" .
  have j8: "j < 8" using power_less_imp_less_exp [OF _ lt] by simp
  define i where "i = 7 - j"
  have i: "j + Suc i = 8" using j8 by (simp add: i_def)
  have p: "(2::nat) ^ j * 2 ^ Suc i = 256"
    by (simp only: power_add [symmetric] i) simp
  obtain q where q: "r = 2 ^ j * q" using sp(1) by (auto elim: dvdE)
  have oq: "odd q" using sp(2) q by simp
  have "m = 256 * (m div 256) + r" by (simp add: r_def)
  also have "\<dots> = (2 ^ j * 2 ^ Suc i) * (m div 256) + 2 ^ j * q"
    by (simp only: p q [symmetric])
  also have "\<dots> = 2 ^ j * (2 ^ Suc i * (m div 256) + q)"
    by (simp only: distrib_left mult.assoc)
  finally have m: "m = 2 ^ j * (2 ^ Suc i * (m div 256) + q)" .
  have d: "2 ^ j dvd m" by (subst m) (rule dvd_triv_left)
  have "m div 2 ^ j = 2 ^ Suc i * (m div 256) + q"
    by (subst m) simp
  then have o: "odd (m div 2 ^ j)" using oq by simp
  have "0 < m" using r by (cases "m = 0") (auto simp: r_def)
  from lzb_unique [OF this d o] show ?thesis by (simp add: j_def r_def)
qed

lemma lzb_loop:
  "0 < m \<Longrightarrow> m < 256 ^ len \<Longrightarrow>
   count_low_zero_bits_loop (BN_bn2lebinpad m len) cnt = cnt + low_zero_bits_of_byte m"
proof (induction len arbitrary: m cnt)
  case 0
  then show ?case by simp
next
  case (Suc len)
  show ?case
  proof (cases "m mod 256 = 0")
    case True
    then have "256 dvd m" by (simp add: dvd_eq_mod_eq_0)
    then have m: "m = 256 * (m div 256)" by simp
    have pos: "0 < m div 256"
    proof (rule ccontr)
      assume "\<not> 0 < m div 256"
      then have "m div 256 = 0" by simp
      with m have "m = 0" by simp
      with Suc.prems(1) show False by simp
    qed
    have "m < 256 * 256 ^ len" using Suc.prems(2) by simp
    then have lt: "m div 256 < 256 ^ len"
      by (simp add: less_mult_imp_div_less mult.commute)
    have "low_zero_bits_of_byte (256 * (m div 256)) = 8 + low_zero_bits_of_byte (m div 256)"
      by (rule lzb_mult256 [OF pos])
    then have e: "low_zero_bits_of_byte m = 8 + low_zero_bits_of_byte (m div 256)"
      by (simp only: m [symmetric])
    have "count_low_zero_bits_loop (BN_bn2lebinpad m (Suc len)) cnt
        = count_low_zero_bits_loop (BN_bn2lebinpad (m div 256) len) (cnt + 8)"
      using True by simp
    also have "\<dots> = cnt + 8 + low_zero_bits_of_byte (m div 256)"
      by (rule Suc.IH [OF pos lt])
    finally show ?thesis using e by simp
  next
    case False
    then show ?thesis using lzb_mod256 [OF False] by simp
  qed
qed

lemma less_pow_num_bytes: "nat \<bar>bn\<bar> < 256 ^ BN_num_bytes bn"
proof -
  let ?n = "\<bar>bn\<bar>"
  have "bitlen ?n \<le> 8 * ((bitlen ?n + 7) div 8)" by presburger
  then have "?n < 2 ^ nat (8 * ((bitlen ?n + 7) div 8))"
    using bitlen_le_iff_power [of ?n "8 * ((bitlen ?n + 7) div 8)"] by simp
  also have "nat (8 * ((bitlen ?n + 7) div 8)) = 8 * BN_num_bytes bn"
    by (simp add: BN_num_bytes_def BN_num_bits_def nat_mult_distrib)
  also have "(2::int) ^ (8 * BN_num_bytes bn) = 256 ^ BN_num_bytes bn"
    by (simp add: power_mult)
  finally have "int (nat ?n) < int (256 ^ BN_num_bytes bn)" by simp
  then show ?thesis by linarith
qed

lemma count_low_zero_bits_eq:
  "BN_ext_count_low_zero_bits bn = int (low_zero_bits_of_byte (nat \<bar>bn\<bar>))"
proof (cases "bn = 0")
  case True
  then show ?thesis
    by (simp add: BN_ext_count_low_zero_bits_def BN_num_bytes_def BN_num_bits_def
        low_zero_bits_of_byte.simps [of 0])
next
  case False
  then have "0 < nat \<bar>bn\<bar>" by simp
  from lzb_loop [OF this less_pow_num_bytes, of 0] show ?thesis
    by (simp add: BN_ext_count_low_zero_bits_def)
qed

section \<open>The special states\<close>

lemma sample_consts_ok: "consts_ok sample_consts"
  by (simp add: consts_ok_def sample_consts_def INT_MAX_def INT_MIN_def c_div_def)

lemma tiny_consts_ok: "consts_ok tiny_consts"
  by (simp add: consts_ok_def tiny_consts_def INT_MAX_def INT_MIN_def c_div_def)

lemma is_nan_not_normal: "is_nan K x \<Longrightarrow> \<not> is_normal K x"
  by (simp add: is_normal_def)

lemma special_simps:
  "is_nan K (NaN K)" "is_zero K (SignedZero K s)" "is_inf K (Infinity K s)"
  by (simp_all add: is_nan_def is_zero_def is_inf_def NaN_def SignedZero_def Infinity_def
      set_nan_def set_zero_def set_inf_def)

lemma special_distinct:
  assumes "consts_ok K"
  shows "\<not> is_nan K (SignedZero K s)" "\<not> is_nan K (Infinity K s)"
    "\<not> is_inf K (SignedZero K s)" "\<not> is_zero K (Infinity K s)"
    "\<not> is_normal K (SignedZero K s)" "\<not> is_normal K (Infinity K s)" "\<not> is_normal K (NaN K)"
  using assms
  by (auto simp add: consts_ok_def is_nan_def is_zero_def is_inf_def is_normal_def NaN_def
      SignedZero_def Infinity_def set_nan_def set_zero_def set_inf_def)

section \<open>What Canonicalize returns\<close>

lemma consts_okD:
  assumes "consts_ok K"
  shows "kMaxExp K \<le> 1073741823" "- 1073741824 \<le> kMinExp K - kMaxPrec K"
    "kMinExp K \<le> 0" "0 < kMaxExp K" "2 \<le> kMaxPrec K"
    "2 * kMaxExp K < kExpZero K" "2 * kMaxExp K < kExpInfinity K" "2 * kMaxExp K < kExpNaN K"
    "kExpZero K \<noteq> kExpInfinity K" "kExpZero K \<noteq> kExpNaN K" "kExpInfinity K \<noteq> kExpNaN K"
  using assms by (simp_all add: consts_ok_def c_div_def INT_MAX_def INT_MIN_def)

lemma normal_iff:
  "is_normal K x \<longleftrightarrow> bn_exp_m x \<noteq> kExpZero K \<and> bn_exp_m x \<noteq> kExpInfinity K \<and> bn_exp_m x \<noteq> kExpNaN K"
  by (simp add: is_normal_def is_zero_def is_inf_def is_nan_def)

lemma normal_below:
  assumes "consts_ok K" "e \<le> 2 * kMaxExp K"
  shows "is_normal K \<lparr> sign_m = s, bn_exp_m = e, bn_m = m \<rparr>"
  using consts_okD [OF assms(1)] assms(2) by (simp add: normal_iff)

lemma odd_part_pos: "n \<noteq> 0 \<Longrightarrow> 0 < odd_part n"
proof -
  assume n: "n \<noteq> 0"
  then have p: "0 < nat \<bar>n\<bar>" by simp
  from lzb_spec [OF p] have "odd (nat \<bar>n\<bar> div 2 ^ low_zero_bits_of_byte (nat \<bar>n\<bar>))" by simp
  then have "0 < nat \<bar>n\<bar> div 2 ^ low_zero_bits_of_byte (nat \<bar>n\<bar>)"
    by (metis gr0I even_zero)
  then have "0 < int (nat \<bar>n\<bar> div 2 ^ low_zero_bits_of_byte (nat \<bar>n\<bar>))" by simp
  also have "\<dots> = odd_part n" by (simp add: odd_part_def zdiv_int)
  finally show ?thesis .
qed

lemma odd_part_odd: "n \<noteq> 0 \<Longrightarrow> odd (odd_part n)"
proof -
  assume n: "n \<noteq> 0"
  then have p: "0 < nat \<bar>n\<bar>" by simp
  from lzb_spec [OF p] have "odd (int (nat \<bar>n\<bar> div 2 ^ low_zero_bits_of_byte (nat \<bar>n\<bar>)))" by simp
  also have "int (nat \<bar>n\<bar> div 2 ^ low_zero_bits_of_byte (nat \<bar>n\<bar>)) = odd_part n"
    by (simp add: odd_part_def zdiv_int)
  finally show ?thesis .
qed

lemma odd_part_mult: "\<bar>n\<bar> = odd_part n * 2 ^ low_zero_bits_of_byte (nat \<bar>n\<bar>)"
proof (cases "n = 0")
  case True
  then show ?thesis by (simp add: odd_part_def)
next
  case False
  then have p: "0 < nat \<bar>n\<bar>" by simp
  from lzb_spec [OF p] have "2 ^ low_zero_bits_of_byte (nat \<bar>n\<bar>) dvd nat \<bar>n\<bar>" by simp
  then have "int (2 ^ low_zero_bits_of_byte (nat \<bar>n\<bar>)) dvd int (nat \<bar>n\<bar>)"
    by (simp only: int_dvd_int_iff)
  then have "2 ^ low_zero_bits_of_byte (nat \<bar>n\<bar>) dvd \<bar>n\<bar>" by simp
  then show ?thesis by (simp add: odd_part_def)
qed

lemma odd_part_of_odd: "odd n \<Longrightarrow> odd_part n = \<bar>n\<bar>"
proof -
  assume "odd n"
  then have "odd (nat \<bar>n\<bar>)" by (simp add: even_nat_iff)
  then have "nat \<bar>n\<bar> mod 2 \<noteq> 0" by presburger
  then have "low_zero_bits_of_byte (nat \<bar>n\<bar>) = 0"
    by (simp add: low_zero_bits_of_byte.simps [of "nat \<bar>n\<bar>"])
  then show ?thesis by (simp add: odd_part_def)
qed

lemma bitlen_odd_part:
  "n \<noteq> 0 \<Longrightarrow> bitlen (odd_part n) + int (low_zero_bits_of_byte (nat \<bar>n\<bar>)) = bitlen \<bar>n\<bar>"
  using bitlen_pow2 [OF odd_part_pos, of n "low_zero_bits_of_byte (nat \<bar>n\<bar>)"] odd_part_mult [of n]
  by simp


lemma abs_odd_part [simp]: "\<bar>odd_part n\<bar> = odd_part n"
  by (simp add: odd_part_def pos_imp_zdiv_nonneg_iff)

lemma lzb_even_pos: "0 < c \<Longrightarrow> even c \<Longrightarrow> 0 < low_zero_bits_of_byte c"
  by (subst low_zero_bits_of_byte.simps) auto

lemma prec_special [simp]:
  "prec (set_zero K s) = 0" "prec (set_inf K s) = 0" "prec (set_nan K) = 0"
  by (simp_all add: prec_def BN_num_bits_def set_zero_def set_inf_def set_nan_def)

lemma Canonicalize_spec:
  assumes K: "consts_ok K" and n: "is_normal K x" and nn: "0 \<le> bn_m x"
  shows "Canonicalize K x =
    (if exp_xf x < kMinExp K \<or> bn_m x = 0 then SignedZero K (sign_m x)
     else if exp_xf x > kMaxExp K then Infinity K (sign_m x)
     else if bitlen (odd_part (bn_m x)) > kMaxPrec K then NaN K
     else \<lparr> sign_m = sign_m x,
            bn_exp_m = bn_exp_m x + int (low_zero_bits_of_byte (nat (bn_m x))),
            bn_m = odd_part (bn_m x) \<rparr>)"
proof -
  note c = consts_okD [OF K]
  consider (z) "exp_xf x < kMinExp K \<or> bn_m x = 0"
    | (i) "\<not> (exp_xf x < kMinExp K \<or> bn_m x = 0)" "exp_xf x > kMaxExp K"
    | (e) "\<not> (exp_xf x < kMinExp K \<or> bn_m x = 0)" "\<not> exp_xf x > kMaxExp K" "even (bn_m x)"
    | (o) "\<not> (exp_xf x < kMinExp K \<or> bn_m x = 0)" "\<not> exp_xf x > kMaxExp K" "odd (bn_m x)"
    by blast
  then show ?thesis
  proof cases
    case z
    then show ?thesis using n c(5)
      by (simp add: Canonicalize_def BN_is_zero_def SignedZero_def)
  next
    case i
    then show ?thesis using n c(5)
      by (simp add: Canonicalize_def BN_is_zero_def Infinity_def)
  next
    case e
    from e(1) nn have pos: "0 < bn_m x" by simp
    then have a: "\<bar>bn_m x\<bar> = bn_m x" by simp
    have "0 < nat (bn_m x)" "even (nat (bn_m x))"
      using pos e(3) by (simp_all add: even_nat_iff)
    then have sh: "0 < low_zero_bits_of_byte (nat (bn_m x))" by (rule lzb_even_pos)
    have r: "BN_rshift (bn_m x) (int (low_zero_bits_of_byte (nat (bn_m x)))) = odd_part (bn_m x)"
      using pos by (simp add: BN_rshift_def odd_part_def)
    show ?thesis using n e sh r a
      by (simp add: Canonicalize_def BN_is_zero_def BN_is_odd_def count_low_zero_bits_eq
          Let_def prec_def BN_num_bits_def NaN_def odd_part_pos)
  next
    case o
    from o(1) nn have pos: "0 < bn_m x" by simp
    have op: "odd_part (bn_m x) = bn_m x" using odd_part_of_odd [OF o(3)] pos by simp
    have "odd (nat (bn_m x))" using o(3) pos by (simp add: even_nat_iff)
    then have "nat (bn_m x) mod 2 \<noteq> 0" by presburger
    then have z: "low_zero_bits_of_byte (nat (bn_m x)) = 0"
      by (simp add: low_zero_bits_of_byte.simps [of "nat (bn_m x)"])
    show ?thesis using n o pos
      by (simp add: Canonicalize_def BN_is_zero_def BN_is_odd_def Let_def prec_def
          BN_num_bits_def NaN_def op z)
  qed
qed


lemma canonical_special:
  assumes "consts_ok K" "s = 1 \<or> s = - 1"
  shows "canonical K (SignedZero K s)" "canonical K (Infinity K s)" "canonical K (NaN K)"
  using assms(2) special_distinct [OF assms(1)]
  by (simp_all add: canonical_def)
    (simp_all add: SignedZero_def Infinity_def NaN_def set_zero_def set_inf_def set_nan_def)

lemma Canonicalize_canonical:
  assumes K: "consts_ok K" and s: "sign_m x = 1 \<or> sign_m x = - 1" and nn: "0 \<le> bn_m x"
    and sp: "\<not> is_normal K x \<Longrightarrow> bn_m x = 0"
  shows "canonical K (Canonicalize K x)"
proof (cases "is_normal K x")
  case False
  then show ?thesis using s sp by (simp add: Canonicalize_def canonical_def)
next
  case True
  note c = consts_okD [OF K]
  note spec = Canonicalize_spec [OF K True nn]
  consider (z) "exp_xf x < kMinExp K \<or> bn_m x = 0"
    | (i) "\<not> (exp_xf x < kMinExp K \<or> bn_m x = 0)" "exp_xf x > kMaxExp K"
    | (p) "\<not> (exp_xf x < kMinExp K \<or> bn_m x = 0)" "\<not> exp_xf x > kMaxExp K"
        "bitlen (odd_part (bn_m x)) > kMaxPrec K"
    | (r) "\<not> (exp_xf x < kMinExp K \<or> bn_m x = 0)" "\<not> exp_xf x > kMaxExp K"
        "\<not> bitlen (odd_part (bn_m x)) > kMaxPrec K"
    by blast
  then show ?thesis
  proof cases
    case z
    then show ?thesis using spec canonical_special(1) [OF K s] by simp
  next
    case i
    then show ?thesis using spec canonical_special(2) [OF K s] by simp
  next
    case p
    then show ?thesis using spec canonical_special(3) [OF K s] by simp
  next
    case r
    let ?t = "int (low_zero_bits_of_byte (nat (bn_m x)))"
    let ?y = "\<lparr> sign_m = sign_m x, bn_exp_m = bn_exp_m x + ?t, bn_m = odd_part (bn_m x) \<rparr>"
    from r(1) nn have pos: "0 < bn_m x" by simp
    then have ne: "bn_m x \<noteq> 0" and ab: "\<bar>bn_m x\<bar> = bn_m x" by simp_all
    have bl: "bitlen (odd_part (bn_m x)) + ?t = bitlen (bn_m x)"
      using bitlen_odd_part [OF ne] ab by simp
    have ex: "exp_xf ?y = exp_xf x"
      using bl ab by (simp add: exp_xf_def BN_num_bits_def)
    have "0 < bitlen (odd_part (bn_m x))"
      using odd_part_pos [OF ne] bitlen_eq_zero_iff [of "odd_part (bn_m x)"] bitlen_nonneg [of "odd_part (bn_m x)"]
      by linarith
    then have "bn_exp_m ?y \<le> 2 * kMaxExp K"
      using ex r(2) c(4) by (simp add: exp_xf_def BN_num_bits_def)
    then have ny: "is_normal K ?y" using normal_below [OF K, of "bn_exp_m x + ?t"] by simp
    have "canonical K ?y"
      unfolding canonical_def using ny s odd_part_odd [OF ne] odd_part_pos [OF ne] r ex
      by (simp add: prec_def BN_num_bits_def)
    then show ?thesis using spec r by simp
  qed
qed

lemma two_powi_add: "(2::real) powi (a + b) = 2 powi a * 2 powi b"
  by (simp add: power_int_add)

lemma value_of_odd_part:
  assumes "0 \<le> n"
  shows "value_of \<lparr> sign_m = s, bn_exp_m = e + int (low_zero_bits_of_byte (nat n)), bn_m = odd_part n \<rparr>
    = value_of \<lparr> sign_m = s, bn_exp_m = e, bn_m = n \<rparr>"
proof -
  let ?t = "low_zero_bits_of_byte (nat n)"
  have "n = odd_part n * 2 ^ ?t" using odd_part_mult [of n] assms by simp
  then have "real_of_int n = real_of_int (odd_part n) * 2 ^ ?t"
    by (metis of_int_mult of_int_numeral of_int_power)
  then show ?thesis
    by (simp add: value_of_def two_powi_add)
qed

lemma Canonicalize_exact:
  assumes K: "consts_ok K" and n: "is_normal K x" and pos: "0 < bn_m x"
    and r: "kMinExp K \<le> exp_xf x" "exp_xf x \<le> kMaxExp K"
      "bitlen (odd_part (bn_m x)) \<le> kMaxPrec K"
  shows "is_normal K (Canonicalize K x)"
    and "value_of (Canonicalize K x) = value_of x"
    and "sign_m (Canonicalize K x) = sign_m x"
proof -
  let ?t = "int (low_zero_bits_of_byte (nat (bn_m x)))"
  let ?y = "\<lparr> sign_m = sign_m x, bn_exp_m = bn_exp_m x + ?t, bn_m = odd_part (bn_m x) \<rparr>"
  from pos have nn: "0 \<le> bn_m x" by simp
  have e: "Canonicalize K x = ?y"
    using Canonicalize_spec [OF K n nn] pos r by simp
  show "sign_m (Canonicalize K x) = sign_m x" by (simp add: e)
  have "value_of ?y = value_of \<lparr> sign_m = sign_m x, bn_exp_m = bn_exp_m x, bn_m = bn_m x \<rparr>"
    by (rule value_of_odd_part [OF nn])
  then show "value_of (Canonicalize K x) = value_of x" by (simp add: e value_of_def)
  from pos have ne: "bn_m x \<noteq> 0" and ab: "\<bar>bn_m x\<bar> = bn_m x" by simp_all
  have bl: "bitlen (odd_part (bn_m x)) + ?t = bitlen (bn_m x)"
    using bitlen_odd_part [OF ne] ab by simp
  have "0 < bitlen (odd_part (bn_m x))"
    using odd_part_pos [OF ne] bitlen_eq_zero_iff [of "odd_part (bn_m x)"]
      bitlen_nonneg [of "odd_part (bn_m x)"]
    by linarith
  then have "bn_exp_m ?y \<le> 2 * kMaxExp K"
    using bl ab r(2) consts_okD(4) [OF K] by (simp add: exp_xf_def BN_num_bits_def)
  then have "is_normal K ?y" using normal_below [OF K, of "bn_exp_m x + ?t"] by simp
  then show "is_normal K (Canonicalize K x)" by (simp add: e)
qed

section \<open>Special values in addition and subtraction\<close>

lemma add_nan_absorbs:
  "is_nan K x \<Longrightarrow> is_nan K (plus_xf K x y) \<and> is_nan K (plus_xf K y x)
     \<and> is_nan K (minus_xf K x y) \<and> is_nan K (minus_xf K y x)"
  by (simp add: plus_xf_def minus_xf_def SignedSum_def is_nan_not_normal)

lemma add_inf_table:
  assumes "consts_ok K"
  shows "plus_xf K (Infinity K 1) (Infinity K (- 1)) = NaN K"
    and "plus_xf K (Infinity K (- 1)) (Infinity K 1) = NaN K"
    and "minus_xf K (Infinity K 1) (Infinity K 1) = NaN K"
    and "minus_xf K (Infinity K (- 1)) (Infinity K (- 1)) = NaN K"
  using special_simps [of K] special_distinct [OF assms]
  by (simp_all add: plus_xf_def minus_xf_def SignedSum_def)
    (simp_all add: Infinity_def set_inf_def)

lemma add_zero_table:
  assumes "consts_ok K"
  shows "plus_xf K (SignedZero K 1) (SignedZero K 1) = SignedZero K 1"
    and "plus_xf K (SignedZero K (- 1)) (SignedZero K (- 1)) = SignedZero K (- 1)"
    and "plus_xf K (SignedZero K 1) (SignedZero K (- 1)) = SignedZero K 1"
    and "plus_xf K (SignedZero K (- 1)) (SignedZero K 1) = SignedZero K 1"
    and "minus_xf K (SignedZero K 1) (SignedZero K 1) = SignedZero K 1"
    and "minus_xf K (SignedZero K (- 1)) (SignedZero K 1) = SignedZero K (- 1)"
    and "minus_xf K (SignedZero K 1) (SignedZero K (- 1)) = SignedZero K 1"
    and "minus_xf K (SignedZero K (- 1)) (SignedZero K (- 1)) = SignedZero K 1"
  using special_simps [of K] special_distinct [OF assms]
  by (simp_all add: plus_xf_def minus_xf_def SignedSum_def)
    (simp_all add: SignedZero_def set_zero_def)

text \<open>
  C4. Addition and subtraction follow the IEEE table on special values: a NaN operand gives
  NaN, on either side, for addition and for subtraction; \<open>(+\<infinity>) + (-\<infinity>)\<close> is NaN, in either
  order, and so is \<open>(+\<infinity>) - (+\<infinity>)\<close>; zeros of the same sign keep their sign and zeros of
  opposite sign give \<open>+0\<close>.
\<close>

theorem C4_special_value_table:
  assumes "consts_ok K"
  shows "(is_nan K x \<longrightarrow> is_nan K (plus_xf K x y) \<and> is_nan K (plus_xf K y x)
             \<and> is_nan K (minus_xf K x y) \<and> is_nan K (minus_xf K y x))
    \<and> plus_xf K (Infinity K 1) (Infinity K (- 1)) = NaN K
    \<and> plus_xf K (Infinity K (- 1)) (Infinity K 1) = NaN K
    \<and> minus_xf K (Infinity K 1) (Infinity K 1) = NaN K
    \<and> plus_xf K (SignedZero K 1) (SignedZero K 1) = SignedZero K 1
    \<and> plus_xf K (SignedZero K (- 1)) (SignedZero K (- 1)) = SignedZero K (- 1)
    \<and> plus_xf K (SignedZero K 1) (SignedZero K (- 1)) = SignedZero K 1
    \<and> plus_xf K (SignedZero K (- 1)) (SignedZero K 1) = SignedZero K 1
    \<and> minus_xf K (SignedZero K 1) (SignedZero K 1) = SignedZero K 1
    \<and> minus_xf K (SignedZero K (- 1)) (SignedZero K 1) = SignedZero K (- 1)"
  using add_nan_absorbs [of K x y] add_inf_table [OF assms] add_zero_table [OF assms]
  by simp

theorem C4_special_value_table_witness:
  "consts_ok sample_consts \<and> is_nan sample_consts (NaN sample_consts)
   \<and> is_nan sample_consts (plus_xf sample_consts (NaN sample_consts) (Infinity sample_consts 1))
   \<and> is_nan sample_consts (minus_xf sample_consts (Infinity sample_consts 1) (NaN sample_consts))
   \<and> plus_xf sample_consts (SignedZero sample_consts 1) (SignedZero sample_consts (- 1))
       = SignedZero sample_consts 1"
  using C4_special_value_table [OF sample_consts_ok, of "NaN sample_consts" "Infinity sample_consts 1"]
    sample_consts_ok special_simps(1) [of sample_consts]
  by simp

section \<open>Exponent overflow and underflow\<close>

lemma canonical_normalD:
  assumes "canonical K x" "is_normal K x"
  shows "odd (bn_m x)" "0 < bn_m x" "kMinExp K \<le> exp_xf x" "exp_xf x \<le> kMaxExp K"
    "prec x \<le> kMaxPrec K" "bitlen (bn_m x) \<le> kMaxPrec K" "0 < bitlen (bn_m x)"
    "odd_part (bn_m x) = bn_m x" "bn_exp_m x < kMaxExp K"
proof -
  show o: "odd (bn_m x)" and p: "0 < bn_m x" and "kMinExp K \<le> exp_xf x"
    and u: "exp_xf x \<le> kMaxExp K" and q: "prec x \<le> kMaxPrec K"
    using assms by (simp_all add: canonical_def)
  show "bitlen (bn_m x) \<le> kMaxPrec K" using q p by (simp add: prec_def BN_num_bits_def)
  show b: "0 < bitlen (bn_m x)"
    using p bitlen_eq_zero_iff [of "bn_m x"] bitlen_nonneg [of "bn_m x"] by linarith
  show "odd_part (bn_m x) = bn_m x" using odd_part_of_odd [OF o] p by simp
  show "bn_exp_m x < kMaxExp K" using u b p by (simp add: exp_xf_def BN_num_bits_def)
qed

lemma canonical_sign: "canonical K x \<Longrightarrow> sign_m x = 1 \<or> sign_m x = - 1"
  by (simp add: canonical_def)

lemma canonical_specialD: "canonical K x \<Longrightarrow> \<not> is_normal K x \<Longrightarrow> bn_m x = 0"
  by (simp add: canonical_def)

lemma Canonicalize_not_nan:
  assumes K: "consts_ok K" and n: "is_normal K x" and nn: "0 \<le> bn_m x"
    and w: "bitlen (odd_part (bn_m x)) \<le> kMaxPrec K \<or> exp_xf x < kMinExp K \<or> kMaxExp K < exp_xf x"
  shows "\<not> is_nan K (Canonicalize K x)"
proof -
  note spec = Canonicalize_spec [OF K n nn]
  note sd = special_distinct [OF K]
  consider (z) "exp_xf x < kMinExp K \<or> bn_m x = 0"
    | (i) "\<not> (exp_xf x < kMinExp K \<or> bn_m x = 0)" "exp_xf x > kMaxExp K"
    | (r) "\<not> (exp_xf x < kMinExp K \<or> bn_m x = 0)" "\<not> exp_xf x > kMaxExp K"
    by blast
  then show ?thesis
  proof cases
    case z
    then show ?thesis using spec sd(1) by simp
  next
    case i
    then show ?thesis using spec sd(2) by simp
  next
    case r
    then have "0 < bn_m x" "kMinExp K \<le> exp_xf x" "exp_xf x \<le> kMaxExp K"
      "bitlen (odd_part (bn_m x)) \<le> kMaxPrec K"
      using nn w by auto
    from Canonicalize_exact(1) [OF K n this] show ?thesis by (simp add: is_normal_def)
  qed
qed

lemma ldexp_arg_normal:
  assumes K: "consts_ok K" and c: "canonical K a" and n: "is_normal K a"
  shows "is_normal K
    (a\<lparr> bn_exp_m := bn_exp_m a + min (kMaxExp K + 1 - exp_xf a) (max (kMinExp K - 1 + exp_xf a) e) \<rparr>)"
proof -
  note d = canonical_normalD [OF c n]
  have "bn_exp_m a + min (kMaxExp K + 1 - exp_xf a) (max (kMinExp K - 1 + exp_xf a) e)
      \<le> bn_exp_m a + (kMaxExp K + 1 - exp_xf a)" by simp
  have "bn_exp_m a + (kMaxExp K + 1 - exp_xf a) \<le> 2 * kMaxExp K"
    using d(2,7) consts_okD(4) [OF K] by (simp add: exp_xf_def BN_num_bits_def)
  then have "bn_exp_m a + min (kMaxExp K + 1 - exp_xf a) (max (kMinExp K - 1 + exp_xf a) e)
      \<le> 2 * kMaxExp K" by simp
  then show ?thesis using consts_okD [OF K] by (simp add: normal_iff)
qed

lemma ldexp_canonical:
  assumes K: "consts_ok K" and c: "canonical K a"
  shows "canonical K (ldexp_xf K a e)"
proof (cases "is_normal K a")
  case False
  then show ?thesis using c by (simp add: ldexp_xf_def)
next
  case True
  note d = canonical_normalD [OF c True]
  let ?x = "a\<lparr> bn_exp_m := bn_exp_m a + min (kMaxExp K + 1 - exp_xf a) (max (kMinExp K - 1 + exp_xf a) e) \<rparr>"
  have "canonical K (Canonicalize K ?x)"
    using canonical_sign [OF c] d(2) ldexp_arg_normal [OF K c True, of e]
    by (intro Canonicalize_canonical [OF K]) simp_all
  then show ?thesis using True by (simp add: ldexp_xf_def Let_def)
qed

lemma ldexp_not_nan:
  assumes K: "consts_ok K" and c: "canonical K a" and nn: "\<not> is_nan K a"
  shows "\<not> is_nan K (ldexp_xf K a e)"
proof (cases "is_normal K a")
  case False
  then show ?thesis using nn by (simp add: ldexp_xf_def)
next
  case True
  note d = canonical_normalD [OF c True]
  let ?x = "a\<lparr> bn_exp_m := bn_exp_m a + min (kMaxExp K + 1 - exp_xf a) (max (kMinExp K - 1 + exp_xf a) e) \<rparr>"
  have "\<not> is_nan K (Canonicalize K ?x)"
    using d(2,6,8) ldexp_arg_normal [OF K c True, of e]
    by (intro Canonicalize_not_nan [OF K]) simp_all
  then show ?thesis using True by (simp add: ldexp_xf_def Let_def)
qed

lemma Canonicalize_bounded:
  assumes K: "consts_ok K" and n: "is_normal K x" and nn: "0 \<le> bn_m x"
    and r: "is_normal K (Canonicalize K x)"
  shows "kMinExp K \<le> exp_xf (Canonicalize K x) \<and> exp_xf (Canonicalize K x) \<le> kMaxExp K"
proof -
  have s: "\<not> is_normal K x \<Longrightarrow> bn_m x = 0" using n by simp
  have "sign_m (x\<lparr>sign_m := 1\<rparr>) = 1 \<or> sign_m (x\<lparr>sign_m := 1\<rparr>) = - 1" by simp
  have e: "Canonicalize K (x\<lparr>sign_m := 1\<rparr>) = (Canonicalize K x)\<lparr>sign_m := 1\<rparr>"
    using n by (simp add: Canonicalize_def normal_iff exp_xf_def Let_def prec_def
        set_zero_def set_inf_def set_nan_def)
  have n1: "is_normal K (x\<lparr>sign_m := 1\<rparr>)" using n by (simp add: normal_iff)
  have "canonical K (Canonicalize K (x\<lparr>sign_m := 1\<rparr>))"
    using nn n1 by (intro Canonicalize_canonical [OF K]) simp_all
  then have "canonical K ((Canonicalize K x)\<lparr>sign_m := 1\<rparr>)" by (simp only: e)
  moreover have "is_normal K ((Canonicalize K x)\<lparr>sign_m := 1\<rparr>)" using r by (simp add: normal_iff)
  ultimately show ?thesis by (simp add: canonical_def exp_xf_def)
qed


text \<open>
  What \<^verbatim>\<open>Canonicalize\<close> does with an exponent out of range.  For a normal value handed to
  it: an exponent \<^verbatim>\<open>exp()\<close> below \<open>kMinExp\<close>, or a zero mantissa, gives the signed zero of
  the same sign; otherwise an exponent above \<open>kMaxExp\<close> gives the signed infinity of the same
  sign; in both cases the result is not NaN; and a result that is still normal has its
  exponent within \<open>[kMinExp, kMaxExp]\<close>.
\<close>

lemma Canonicalize_saturates:
  assumes "consts_ok K" and "is_normal K x" and "0 \<le> bn_m x"
  shows "(exp_xf x < kMinExp K \<or> bn_m x = 0 \<longrightarrow> Canonicalize K x = SignedZero K (sign_m x)) \<and>
         (bn_m x \<noteq> 0 \<and> kMaxExp K < exp_xf x \<longrightarrow> Canonicalize K x = Infinity K (sign_m x)) \<and>
         (exp_xf x < kMinExp K \<or> kMaxExp K < exp_xf x \<longrightarrow> \<not> is_nan K (Canonicalize K x)) \<and>
         (is_normal K (Canonicalize K x) \<longrightarrow>
            kMinExp K \<le> exp_xf (Canonicalize K x) \<and> exp_xf (Canonicalize K x) \<le> kMaxExp K)"
proof (intro conjI impI)
  note n = assms(2) and nn = assms(3)
  note spec = Canonicalize_spec [OF assms(1) n nn]
  note c = consts_okD [OF assms(1)]
  show "Canonicalize K x = SignedZero K (sign_m x)" if "exp_xf x < kMinExp K \<or> bn_m x = 0"
    using spec that by simp
  show "Canonicalize K x = Infinity K (sign_m x)" if "bn_m x \<noteq> 0 \<and> kMaxExp K < exp_xf x"
    using spec that c(3,4) by simp
  show "\<not> is_nan K (Canonicalize K x)" if "exp_xf x < kMinExp K \<or> kMaxExp K < exp_xf x"
    using Canonicalize_not_nan [OF assms(1) n nn] that by blast
  show "kMinExp K \<le> exp_xf (Canonicalize K x)" if "is_normal K (Canonicalize K x)"
    using Canonicalize_bounded [OF assms(1) n nn that] by simp
  show "exp_xf (Canonicalize K x) \<le> kMaxExp K" if "is_normal K (Canonicalize K x)"
    using Canonicalize_bounded [OF assms(1) n nn that] by simp
qed

section \<open>Sums and products of normal values\<close>

lemma sum_record_eq:
  assumes s: "s1 = 1 \<or> s1 = - 1" "s2 = 1 \<or> s2 = - 1" and p: "0 < A" "0 < B"
  shows "(if s1 = s2 then \<lparr> sign_m = s1, bn_exp_m = e, bn_m = A + B \<rparr>
          else (let d = A - B
                in if BN_is_zero d then \<lparr> sign_m = 1, bn_exp_m = e, bn_m = d \<rparr>
                   else if BN_is_negative d then \<lparr> sign_m = s2, bn_exp_m = e, bn_m = \<bar>d\<bar> \<rparr>
                   else \<lparr> sign_m = s1, bn_exp_m = e, bn_m = d \<rparr>))
       = \<lparr> sign_m = (if s1 * A + s2 * B < 0 then - 1 else 1), bn_exp_m = e,
           bn_m = \<bar>s1 * A + s2 * B\<bar> \<rparr>"
proof -
  from s consider (pp) "s1 = 1" "s2 = 1" | (pm) "s1 = 1" "s2 = - 1"
    | (mp) "s1 = - 1" "s2 = 1" | (mm) "s1 = - 1" "s2 = - 1" by blast
  then show ?thesis
  proof cases
    case pp
    then show ?thesis using p by simp
  next
    case pm
    then show ?thesis using p by (simp add: BN_is_zero_def BN_is_negative_def Let_def)
  next
    case mp
    then show ?thesis using p by (simp add: BN_is_zero_def BN_is_negative_def Let_def)
  next
    case mm
    then show ?thesis using p by simp
  qed
qed

lemma SignedSum_aligned:
  assumes K: "consts_ok K" and na: "is_normal K a" and nb: "is_normal K b"
    and sa: "sa = 1 \<or> sa = - 1" and sb: "sb = 1 \<or> sb = - 1"
    and pa: "0 < bn_m a" and pb: "0 < bn_m b"
  shows "SignedSum K sa a sb b = Canonicalize K (aligned_sum sa a sb b)"
proof -
  have pw: "0 < bn_m a * 2 ^ n" "0 < bn_m b * 2 ^ n" for n
    using pa pb by simp_all
  consider (lt) "bn_exp_m a < bn_exp_m b" | (eq) "bn_exp_m a = bn_exp_m b"
    | (gt) "bn_exp_m a > bn_exp_m b" by linarith
  then show ?thesis
  proof cases
    case lt
    then have m: "min (bn_exp_m a) (bn_exp_m b) = bn_exp_m a" by simp
    have "SignedSum K sa a sb b = Canonicalize K
        (if sb = sa then \<lparr> sign_m = sb, bn_exp_m = bn_exp_m a,
             bn_m = bn_m b * 2 ^ nat (bn_exp_m b - bn_exp_m a) + bn_m a \<rparr>
          else (let d = bn_m b * 2 ^ nat (bn_exp_m b - bn_exp_m a) - bn_m a
                in if BN_is_zero d then \<lparr> sign_m = 1, bn_exp_m = bn_exp_m a, bn_m = d \<rparr>
                   else if BN_is_negative d then \<lparr> sign_m = sa, bn_exp_m = bn_exp_m a, bn_m = \<bar>d\<bar> \<rparr>
                   else \<lparr> sign_m = sb, bn_exp_m = bn_exp_m a, bn_m = d \<rparr>))"
      using na nb lt by (simp add: SignedSum_def Let_def BN_lshift_def)
    also have "\<dots> = Canonicalize K (aligned_sum sa a sb b)"
      by (simp only: sum_record_eq [OF sb sa pw(2) pa]) (simp add: aligned_sum_def Let_def m add.commute)
    finally show ?thesis .
  next
    case eq
    have "SignedSum K sa a sb b = Canonicalize K
        (if sa = sb then \<lparr> sign_m = sa, bn_exp_m = bn_exp_m b, bn_m = bn_m a + bn_m b \<rparr>
          else (let d = bn_m a - bn_m b
                in if BN_is_zero d then \<lparr> sign_m = 1, bn_exp_m = bn_exp_m b, bn_m = d \<rparr>
                   else if BN_is_negative d then \<lparr> sign_m = sb, bn_exp_m = bn_exp_m b, bn_m = \<bar>d\<bar> \<rparr>
                   else \<lparr> sign_m = sa, bn_exp_m = bn_exp_m b, bn_m = d \<rparr>))"
      using na nb eq by (simp add: SignedSum_def Let_def)
    also have "\<dots> = Canonicalize K (aligned_sum sa a sb b)"
      by (simp only: sum_record_eq [OF sa sb pa pb]) (simp add: aligned_sum_def Let_def eq)
    finally show ?thesis .
  next
    case gt
    then have m: "min (bn_exp_m a) (bn_exp_m b) = bn_exp_m b" by simp
    have "SignedSum K sa a sb b = Canonicalize K
        (if sa = sb then \<lparr> sign_m = sa, bn_exp_m = bn_exp_m b,
             bn_m = bn_m a * 2 ^ nat (bn_exp_m a - bn_exp_m b) + bn_m b \<rparr>
          else (let d = bn_m a * 2 ^ nat (bn_exp_m a - bn_exp_m b) - bn_m b
                in if BN_is_zero d then \<lparr> sign_m = 1, bn_exp_m = bn_exp_m b, bn_m = d \<rparr>
                   else if BN_is_negative d then \<lparr> sign_m = sb, bn_exp_m = bn_exp_m b, bn_m = \<bar>d\<bar> \<rparr>
                   else \<lparr> sign_m = sa, bn_exp_m = bn_exp_m b, bn_m = d \<rparr>))"
      using na nb gt by (simp add: SignedSum_def Let_def BN_lshift_def)
    also have "\<dots> = Canonicalize K (aligned_sum sa a sb b)"
      by (simp only: sum_record_eq [OF sa sb pw(1) pb]) (simp add: aligned_sum_def Let_def m)
    finally show ?thesis .
  qed
qed


lemma two_powi_split:
  assumes "e \<le> a"
  shows "(2::real) ^ nat (a - e) * 2 powi e = 2 powi a"
proof -
  have "(2::real) ^ nat (a - e) = 2 powi (a - e)"
    using assms by (simp add: power_int_def)
  then have "(2::real) ^ nat (a - e) * 2 powi e = 2 powi ((a - e) + e)"
    by (simp only: two_powi_add)
  then show ?thesis by simp
qed

lemma value_of_aligned_sum:
  "value_of (aligned_sum sa a sb b)
     = of_int (sa * bn_m a) * 2 powi bn_exp_m a + of_int (sb * bn_m b) * 2 powi bn_exp_m b"
proof -
  define e where "e = min (bn_exp_m a) (bn_exp_m b)"
  define t where "t = sa * (bn_m a * 2 ^ nat (bn_exp_m a - e)) + sb * (bn_m b * 2 ^ nat (bn_exp_m b - e))"
  have le: "e \<le> bn_exp_m a" "e \<le> bn_exp_m b" by (simp_all add: e_def)
  have sg: "(if t < 0 then - 1 else 1) * \<bar>t\<bar> = t" by simp
  have "value_of (aligned_sum sa a sb b) = of_int ((if t < 0 then - 1 else 1) * \<bar>t\<bar>) * 2 powi e"
    by (simp add: aligned_sum_def Let_def value_of_def e_def t_def)
  also have "\<dots> = of_int t * 2 powi e" by (simp only: sg)
  also have "\<dots> = of_int (sa * bn_m a) * ((2::real) ^ nat (bn_exp_m a - e) * 2 powi e)
      + of_int (sb * bn_m b) * ((2::real) ^ nat (bn_exp_m b - e) * 2 powi e)"
    by (simp add: t_def algebra_simps)
  also have "\<dots> = of_int (sa * bn_m a) * 2 powi bn_exp_m a + of_int (sb * bn_m b) * 2 powi bn_exp_m b"
    by (simp only: two_powi_split [OF le(1)] two_powi_split [OF le(2)])
  finally show ?thesis .
qed

lemma aligned_sum_fields:
  "0 \<le> bn_m (aligned_sum sa a sb b)"
  "sign_m (aligned_sum sa a sb b) = 1 \<or> sign_m (aligned_sum sa a sb b) = - 1"
  "bn_exp_m (aligned_sum sa a sb b) = min (bn_exp_m a) (bn_exp_m b)"
  by (simp_all add: aligned_sum_def Let_def)

lemma aligned_sum_normal:
  assumes K: "consts_ok K" and c: "canonical K a" and n: "is_normal K a"
  shows "is_normal K (aligned_sum sa a sb b)"
proof -
  have "min (bn_exp_m a) (bn_exp_m b) \<le> 2 * kMaxExp K"
    using canonical_normalD(9) [OF c n] consts_okD(4) [OF K] by simp
  then show ?thesis using consts_okD [OF K] by (simp add: normal_iff aligned_sum_fields)
qed

lemma Canonicalize_normal_value:
  assumes K: "consts_ok K" and n: "is_normal K x" and nn: "0 \<le> bn_m x"
    and r: "is_normal K (Canonicalize K x)"
  shows "value_of (Canonicalize K x) = value_of x"
proof -
  note spec = Canonicalize_spec [OF K n nn]
  note sd = special_distinct [OF K]
  let ?y = "\<lparr> sign_m = sign_m x, bn_exp_m = bn_exp_m x + int (low_zero_bits_of_byte (nat (bn_m x))),
      bn_m = odd_part (bn_m x) \<rparr>"
  have "Canonicalize K x = SignedZero K (sign_m x) \<or> Canonicalize K x = Infinity K (sign_m x)
      \<or> Canonicalize K x = NaN K \<or> Canonicalize K x = ?y"
    by (simp only: spec split: if_split) simp
  then have "Canonicalize K x = ?y"
    using r sd(5,6,7) by auto
  moreover have "value_of ?y = value_of \<lparr> sign_m = sign_m x, bn_exp_m = bn_exp_m x, bn_m = bn_m x \<rparr>"
    by (rule value_of_odd_part [OF nn])
  ultimately show ?thesis by (simp add: value_of_def)
qed

lemma fits_Canonicalize:
  assumes K: "consts_ok K" and n: "is_normal K x" and nn: "0 \<le> bn_m x" and f: "fits K x"
  shows "is_normal K (Canonicalize K x)" "value_of (Canonicalize K x) = value_of x"
proof -
  have "0 < bn_m x" "kMinExp K \<le> exp_xf x" "exp_xf x \<le> kMaxExp K"
    "bitlen (odd_part (bn_m x)) \<le> kMaxPrec K"
    using f nn by (simp_all add: fits_def)
  from Canonicalize_exact(1,2) [OF K n this]
  show "is_normal K (Canonicalize K x)" "value_of (Canonicalize K x) = value_of x" by simp_all
qed

lemma canonical_CopyWithSign:
  "canonical K x \<Longrightarrow> s = 1 \<or> s = - 1 \<Longrightarrow> canonical K (CopyWithSign x s)"
  by (auto simp add: canonical_def CopyWithSign_def normal_iff prec_def exp_xf_def)

lemma SignedSum_canonical:
  assumes K: "consts_ok K" and ca: "canonical K a" and cb: "canonical K b"
    and sa: "sa = 1 \<or> sa = - 1" and sb: "sb = 1 \<or> sb = - 1"
  shows "canonical K (SignedSum K sa a sb b)"
proof (cases "is_normal K a \<and> is_normal K b")
  case True
  then have na: "is_normal K a" and nb: "is_normal K b" by simp_all
  have e: "SignedSum K sa a sb b = Canonicalize K (aligned_sum sa a sb b)"
    using SignedSum_aligned [OF K na nb sa sb] canonical_normalD(2) [OF ca na]
      canonical_normalD(2) [OF cb nb] by simp
  show ?thesis
    unfolding e
    using aligned_sum_fields(1,2) [of sa a sb b] aligned_sum_normal [OF K ca na, of sa sb b]
    by (intro Canonicalize_canonical [OF K]) simp_all
next
  case False
  have cs: "canonical K (CopyWithSign a sa)" "canonical K (CopyWithSign b sb)"
    using ca cb sa sb by (simp_all add: canonical_CopyWithSign)
  show ?thesis using False ca cb cs canonical_special [OF K sa] canonical_special [OF K sb]
      canonical_special(1) [OF K, of 1]
    by (simp add: SignedSum_def)
qed


lemma value_of_sign: "value_of (aligned_sum (sign_m a) a (sign_m b) b) = value_of a + value_of b"
  "value_of (aligned_sum (sign_m a) a (- sign_m b) b) = value_of a - value_of b"
  using value_of_aligned_sum [of "sign_m a" a "sign_m b" b]
    value_of_aligned_sum [of "sign_m a" a "- sign_m b" b]
  by (simp_all add: value_of_def [of a] value_of_def [of b])

lemma plus_minus_aligned:
  assumes K: "consts_ok K" and ca: "canonical K a" and cb: "canonical K b"
    and na: "is_normal K a" and nb: "is_normal K b"
  shows "plus_xf K a b = Canonicalize K (aligned_sum (sign_m a) a (sign_m b) b)"
    and "minus_xf K a b = Canonicalize K (aligned_sum (sign_m a) a (- sign_m b) b)"
proof -
  note pa = canonical_normalD(2) [OF ca na] and pb = canonical_normalD(2) [OF cb nb]
  have sb': "- sign_m b = 1 \<or> - sign_m b = - 1" using canonical_sign [OF cb] by auto
  show "plus_xf K a b = Canonicalize K (aligned_sum (sign_m a) a (sign_m b) b)"
    unfolding plus_xf_def
    by (rule SignedSum_aligned [OF K na nb canonical_sign [OF ca] canonical_sign [OF cb] pa pb])
  show "minus_xf K a b = Canonicalize K (aligned_sum (sign_m a) a (- sign_m b) b)"
    unfolding minus_xf_def
    by (rule SignedSum_aligned [OF K na nb canonical_sign [OF ca] sb' pa pb])
qed

text \<open>
  C9 (as amended). For canonical normal operands, \<^verbatim>\<open>operator+\<close> and \<^verbatim>\<open>operator-\<close> hand to
  \<^verbatim>\<open>Canonicalize\<close> the aligned sum: the common exponent is the smaller \<^verbatim>\<open>bn_exp_\<close>, the
  mantissa of the operand with the larger \<^verbatim>\<open>bn_exp_\<close> is shifted left by the difference, the
  signed mantissas are added, and the sign is that of the signed sum (+1 for an exact zero).
  The aligned sum stands for the exact sum or difference.  The returned value is that exact
  value whenever it is normal, and it is normal whenever the aligned sum is nonzero, has its
  exponent within \<open>[kMinExp, kMaxExp]\<close> and needs at most \<open>kMaxPrec\<close> mantissa bits.
\<close>

theorem C9_signed_sum_exact:
  assumes "consts_ok K" "canonical K a" "canonical K b" "is_normal K a" "is_normal K b"
  shows "plus_xf K a b = Canonicalize K (aligned_sum (sign_m a) a (sign_m b) b)
     \<and> minus_xf K a b = Canonicalize K (aligned_sum (sign_m a) a (- sign_m b) b)
     \<and> value_of (aligned_sum (sign_m a) a (sign_m b) b) = value_of a + value_of b
     \<and> value_of (aligned_sum (sign_m a) a (- sign_m b) b) = value_of a - value_of b
     \<and> (fits K (aligned_sum (sign_m a) a (sign_m b) b) \<longrightarrow> is_normal K (plus_xf K a b))
     \<and> (fits K (aligned_sum (sign_m a) a (- sign_m b) b) \<longrightarrow> is_normal K (minus_xf K a b))
     \<and> (is_normal K (plus_xf K a b) \<longrightarrow> value_of (plus_xf K a b) = value_of a + value_of b)
     \<and> (is_normal K (minus_xf K a b) \<longrightarrow> value_of (minus_xf K a b) = value_of a - value_of b)"
proof -
  note K = assms(1) and ca = assms(2) and na = assms(4)
  note al = plus_minus_aligned [OF assms]
  let ?p = "aligned_sum (sign_m a) a (sign_m b) b"
  let ?m = "aligned_sum (sign_m a) a (- sign_m b) b"
  have np: "is_normal K ?p" and nm: "is_normal K ?m"
    by (rule aligned_sum_normal [OF K ca na])+
  have nn: "0 \<le> bn_m ?p" "0 \<le> bn_m ?m" by (rule aligned_sum_fields(1))+
  have f1: "is_normal K (plus_xf K a b)" if "fits K ?p"
    unfolding al(1) by (rule fits_Canonicalize(1) [OF K np nn(1) that])
  have f2: "is_normal K (minus_xf K a b)" if "fits K ?m"
    unfolding al(2) by (rule fits_Canonicalize(1) [OF K nm nn(2) that])
  have v1: "value_of (plus_xf K a b) = value_of a + value_of b" if "is_normal K (plus_xf K a b)"
    using Canonicalize_normal_value [OF K np nn(1)] that by (simp add: al(1) value_of_sign(1))
  have v2: "value_of (minus_xf K a b) = value_of a - value_of b" if "is_normal K (minus_xf K a b)"
    using Canonicalize_normal_value [OF K nm nn(2)] that by (simp add: al(2) value_of_sign(2))
  show ?thesis
    using al value_of_sign [of a b] f1 f2 v1 v2 by (intro conjI impI)
qed

lemma bitlen_numeral:
  "bitlen (numeral w) = bitlen (numeral w div 2) + 1" "bitlen 1 = 1"
  by (simp_all add: compute_bitlen [of "numeral w"] compute_bitlen [of 1])

lemma low_zero_bits_numeral:
  "low_zero_bits_of_byte (numeral w) =
     (if (numeral w :: nat) mod 2 = 0 then Suc (low_zero_bits_of_byte (numeral w div 2)) else 0)"
  "low_zero_bits_of_byte 0 = 0" "low_zero_bits_of_byte (Suc 0) = 0"
  by (simp_all add: low_zero_bits_of_byte.simps [of "numeral w"] low_zero_bits_of_byte.simps [of 0]
      low_zero_bits_of_byte.simps [of "Suc 0"])

lemmas xf_eval =
  canonical_def normal_iff is_nan_def is_zero_def is_inf_def exp_xf_def prec_def
  BN_num_bits_def bitlen_numeral Canonicalize_def BN_is_zero_def BN_is_odd_def BN_rshift_def
  BN_lshift_def BN_is_negative_def BN_ucmp_def BN_is_bit_set_def
  count_low_zero_bits_eq low_zero_bits_numeral
  set_zero_def set_inf_def set_nan_def SignedZero_def Infinity_def NaN_def Let_def
  CopyWithSign_def times_xf_def plus_xf_def minus_xf_def SignedSum_def
  aligned_sum_def odd_part_def fits_def sample_consts_def tiny_consts_def

theorem C9_signed_sum_exact_witness:
  "consts_ok sample_consts
   \<and> canonical sample_consts \<lparr> sign_m = 1, bn_exp_m = 3, bn_m = 5 \<rparr>
   \<and> canonical sample_consts \<lparr> sign_m = - 1, bn_exp_m = 0, bn_m = 3 \<rparr>
   \<and> is_normal sample_consts \<lparr> sign_m = 1, bn_exp_m = 3, bn_m = 5 \<rparr>
   \<and> is_normal sample_consts \<lparr> sign_m = - 1, bn_exp_m = 0, bn_m = 3 \<rparr>
   \<and> plus_xf sample_consts \<lparr> sign_m = 1, bn_exp_m = 3, bn_m = 5 \<rparr>
         \<lparr> sign_m = - 1, bn_exp_m = 0, bn_m = 3 \<rparr> = \<lparr> sign_m = 1, bn_exp_m = 0, bn_m = 37 \<rparr>
   \<and> is_normal sample_consts (plus_xf sample_consts \<lparr> sign_m = 1, bn_exp_m = 3, bn_m = 5 \<rparr>
         \<lparr> sign_m = - 1, bn_exp_m = 0, bn_m = 3 \<rparr>)
   \<and> value_of (plus_xf sample_consts \<lparr> sign_m = 1, bn_exp_m = 3, bn_m = 5 \<rparr>
         \<lparr> sign_m = - 1, bn_exp_m = 0, bn_m = 3 \<rparr>)
       = value_of \<lparr> sign_m = 1, bn_exp_m = 3, bn_m = 5 \<rparr>
         + value_of \<lparr> sign_m = - 1, bn_exp_m = 0, bn_m = 3 \<rparr>"
proof -
  let ?a = "\<lparr> sign_m = 1, bn_exp_m = 3, bn_m = 5 \<rparr>"
  let ?b = "\<lparr> sign_m = - 1, bn_exp_m = 0, bn_m = 3 \<rparr>"
  have c: "canonical sample_consts ?a" "canonical sample_consts ?b"
    "is_normal sample_consts ?a" "is_normal sample_consts ?b"
    by (simp_all add: canonical_def normal_iff sample_consts_def exp_xf_def prec_def
        BN_num_bits_def compute_bitlen)
  have e: "plus_xf sample_consts ?a ?b = \<lparr> sign_m = 1, bn_exp_m = 0, bn_m = 37 \<rparr>"
    by (simp add: xf_eval)
  have n: "is_normal sample_consts (plus_xf sample_consts ?a ?b)"
    unfolding e by (simp add: normal_iff sample_consts_def)
  have v: "value_of (plus_xf sample_consts ?a ?b) = value_of ?a + value_of ?b"
    using C9_signed_sum_exact [OF sample_consts_ok c] n by blast
  show ?thesis using sample_consts_ok c e n v by (intro conjI)
qed

theorem C9_overflow_counterexample:
  "canonical sample_consts \<lparr> sign_m = 1, bn_exp_m = 199999998, bn_m = 3 \<rparr>
   \<and> canonical sample_consts \<lparr> sign_m = 1, bn_exp_m = 199999999, bn_m = 1 \<rparr>
   \<and> is_normal sample_consts \<lparr> sign_m = 1, bn_exp_m = 199999998, bn_m = 3 \<rparr>
   \<and> is_normal sample_consts \<lparr> sign_m = 1, bn_exp_m = 199999999, bn_m = 1 \<rparr>
   \<and> plus_xf sample_consts \<lparr> sign_m = 1, bn_exp_m = 199999998, bn_m = 3 \<rparr>
         \<lparr> sign_m = 1, bn_exp_m = 199999999, bn_m = 1 \<rparr> = Infinity sample_consts 1
   \<and> \<not> is_normal sample_consts (plus_xf sample_consts \<lparr> sign_m = 1, bn_exp_m = 199999998, bn_m = 3 \<rparr>
         \<lparr> sign_m = 1, bn_exp_m = 199999999, bn_m = 1 \<rparr>)
   \<and> \<not> is_zero sample_consts (plus_xf sample_consts \<lparr> sign_m = 1, bn_exp_m = 199999998, bn_m = 3 \<rparr>
         \<lparr> sign_m = 1, bn_exp_m = 199999999, bn_m = 1 \<rparr>)"
proof -
  let ?a = "\<lparr> sign_m = 1, bn_exp_m = 199999998, bn_m = 3 \<rparr>"
  let ?b = "\<lparr> sign_m = 1, bn_exp_m = 199999999, bn_m = 1 \<rparr>"
  have c: "canonical sample_consts ?a" "canonical sample_consts ?b"
    "is_normal sample_consts ?a" "is_normal sample_consts ?b"
    by (simp_all add: canonical_def normal_iff sample_consts_def exp_xf_def prec_def
        BN_num_bits_def compute_bitlen)
  have e: "plus_xf sample_consts ?a ?b = Infinity sample_consts 1"
    by (simp add: xf_eval)
  have n: "\<not> is_normal sample_consts (plus_xf sample_consts ?a ?b)"
    "\<not> is_zero sample_consts (plus_xf sample_consts ?a ?b)"
    unfolding e using special_distinct [OF sample_consts_ok] by simp_all
  show ?thesis using c e n by (intro conjI)
qed

lemma times_normal:
  assumes K: "consts_ok K" and ca: "canonical K a" and cb: "canonical K b"
    and na: "is_normal K a" and nb: "is_normal K b"
  shows "times_xf K a b = Canonicalize K
      \<lparr> sign_m = sign_m a * sign_m b, bn_exp_m = bn_exp_m a + bn_exp_m b, bn_m = bn_m a * bn_m b \<rparr>"
    and "is_normal K
      \<lparr> sign_m = sign_m a * sign_m b, bn_exp_m = bn_exp_m a + bn_exp_m b, bn_m = bn_m a * bn_m b \<rparr>"
    and "0 < bn_m a * bn_m b" and "odd (bn_m a * bn_m b)"
    and "sign_m a * sign_m b = 1 \<or> sign_m a * sign_m b = - 1"
proof -
  note da = canonical_normalD [OF ca na] and db = canonical_normalD [OF cb nb]
  show "times_xf K a b = Canonicalize K
      \<lparr> sign_m = sign_m a * sign_m b, bn_exp_m = bn_exp_m a + bn_exp_m b, bn_m = bn_m a * bn_m b \<rparr>"
    using na nb by (simp add: times_xf_def)
  have "bn_exp_m a + bn_exp_m b \<le> 2 * kMaxExp K" using da(9) db(9) by simp
  then show "is_normal K
      \<lparr> sign_m = sign_m a * sign_m b, bn_exp_m = bn_exp_m a + bn_exp_m b, bn_m = bn_m a * bn_m b \<rparr>"
    by (rule normal_below [OF K])
  show "0 < bn_m a * bn_m b" using da(2) db(2) by simp
  show "odd (bn_m a * bn_m b)" using da(1) db(1) by simp
  show "sign_m a * sign_m b = 1 \<or> sign_m a * sign_m b = - 1"
    using canonical_sign [OF ca] canonical_sign [OF cb] by auto
qed

lemma times_canonical:
  assumes K: "consts_ok K" and ca: "canonical K a" and cb: "canonical K b"
  shows "canonical K (times_xf K a b)"
proof (cases "is_normal K a \<and> is_normal K b")
  case True
  then have na: "is_normal K a" and nb: "is_normal K b" by simp_all
  note t = times_normal [OF K ca cb na nb]
  show ?thesis
    unfolding t(1) using t(2,3,5) by (intro Canonicalize_canonical [OF K]) simp_all
next
  case False
  have s: "sign_m a * sign_m b = 1 \<or> sign_m a * sign_m b = - 1"
    using canonical_sign [OF ca] canonical_sign [OF cb] by auto
  show ?thesis using False ca cb canonical_special [OF K s]
    by (simp add: times_xf_def Let_def)
qed

lemma canonical_prec:
  assumes "consts_ok K" "canonical K x"
  shows "prec x \<le> kMaxPrec K"
proof (cases "is_normal K x")
  case True
  then show ?thesis using assms(2) by (simp add: canonical_def)
next
  case False
  then have "bn_m x = 0" using assms(2) by (simp add: canonical_def)
  then show ?thesis using consts_okD(5) [OF assms(1)] by (simp add: prec_def BN_num_bits_def)
qed

lemma value_of_product:
  "value_of \<lparr> sign_m = sign_m a * sign_m b, bn_exp_m = bn_exp_m a + bn_exp_m b, bn_m = bn_m a * bn_m b \<rparr>
     = value_of a * value_of b"
  by (simp add: value_of_def two_powi_add)

lemma sum_out_of_range:
  assumes K: "consts_ok K" and ca: "canonical K a" and na: "is_normal K a"
  shows "kMinExp K \<le> exp_xf (aligned_sum sa a sb b) \<and> exp_xf (aligned_sum sa a sb b) \<le> kMaxExp K
           \<and> bn_m (aligned_sum sa a sb b) \<noteq> 0
           \<and> kMaxPrec K < BN_num_bits (odd_part (bn_m (aligned_sum sa a sb b)))
         \<longrightarrow> Canonicalize K (aligned_sum sa a sb b) = NaN K"
    and "exp_xf (aligned_sum sa a sb b) < kMinExp K
         \<longrightarrow> Canonicalize K (aligned_sum sa a sb b) = SignedZero K (sign_m (aligned_sum sa a sb b))"
    and "bn_m (aligned_sum sa a sb b) \<noteq> 0 \<and> kMaxExp K < exp_xf (aligned_sum sa a sb b)
         \<longrightarrow> Canonicalize K (aligned_sum sa a sb b) = Infinity K (sign_m (aligned_sum sa a sb b))"
proof -
  let ?p = "aligned_sum sa a sb b"
  have np: "is_normal K ?p" by (rule aligned_sum_normal [OF K ca na])
  have nn: "0 \<le> bn_m ?p" by (rule aligned_sum_fields(1))
  note spec = Canonicalize_spec [OF K np nn]
  note c = consts_okD [OF K]
  show "kMinExp K \<le> exp_xf ?p \<and> exp_xf ?p \<le> kMaxExp K \<and> bn_m ?p \<noteq> 0
           \<and> kMaxPrec K < BN_num_bits (odd_part (bn_m ?p))
         \<longrightarrow> Canonicalize K ?p = NaN K"
    using spec by (simp add: BN_num_bits_def)
  show "exp_xf ?p < kMinExp K \<longrightarrow> Canonicalize K ?p = SignedZero K (sign_m ?p)"
    using spec by simp
  show "bn_m ?p \<noteq> 0 \<and> kMaxExp K < exp_xf ?p \<longrightarrow> Canonicalize K ?p = Infinity K (sign_m ?p)"
    using spec c(3,4) by simp
qed

lemma product_out_of_range:
  assumes K: "consts_ok K" and ca: "canonical K a" and cb: "canonical K b"
    and na: "is_normal K a" and nb: "is_normal K b"
  shows "kMinExp K \<le> bn_exp_m a + bn_exp_m b + BN_num_bits (bn_m a * bn_m b)
           \<and> bn_exp_m a + bn_exp_m b + BN_num_bits (bn_m a * bn_m b) \<le> kMaxExp K
           \<and> kMaxPrec K < BN_num_bits (bn_m a * bn_m b)
         \<longrightarrow> times_xf K a b = NaN K"
    and "bn_exp_m a + bn_exp_m b + BN_num_bits (bn_m a * bn_m b) < kMinExp K
         \<longrightarrow> times_xf K a b = SignedZero K (sign_m a * sign_m b)"
    and "kMaxExp K < bn_exp_m a + bn_exp_m b + BN_num_bits (bn_m a * bn_m b)
         \<longrightarrow> times_xf K a b = Infinity K (sign_m a * sign_m b)"
proof -
  note t = times_normal [OF K ca cb na nb]
  note c = consts_okD [OF K]
  have op: "odd_part (bn_m a * bn_m b) = bn_m a * bn_m b"
    using odd_part_of_odd [OF t(4)] t(3) by simp
  have ab: "\<bar>bn_m a * bn_m b\<bar> = bn_m a * bn_m b" using t(3) by linarith
  have nz: "bn_m a \<noteq> 0" "bn_m b \<noteq> 0"
    using canonical_normalD(2) [OF ca na] canonical_normalD(2) [OF cb nb] by simp_all
  note spec = Canonicalize_spec [OF K t(2)]
  show "kMinExp K \<le> bn_exp_m a + bn_exp_m b + BN_num_bits (bn_m a * bn_m b)
           \<and> bn_exp_m a + bn_exp_m b + BN_num_bits (bn_m a * bn_m b) \<le> kMaxExp K
           \<and> kMaxPrec K < BN_num_bits (bn_m a * bn_m b)
         \<longrightarrow> times_xf K a b = NaN K"
    unfolding t(1) using spec t(3) op ab nz by (simp add: exp_xf_def BN_num_bits_def)
  show "bn_exp_m a + bn_exp_m b + BN_num_bits (bn_m a * bn_m b) < kMinExp K
         \<longrightarrow> times_xf K a b = SignedZero K (sign_m a * sign_m b)"
    unfolding t(1) using spec t(3) by (simp add: exp_xf_def)
  show "kMaxExp K < bn_exp_m a + bn_exp_m b + BN_num_bits (bn_m a * bn_m b)
         \<longrightarrow> times_xf K a b = Infinity K (sign_m a * sign_m b)"
    unfolding t(1) using spec t(3) c(3,4) nz by (simp add: exp_xf_def)
qed

text \<open>
  C2 (as amended). For canonical normal operands, with the exponent \<^verbatim>\<open>exp()\<close> and the
  mantissa of the exact product, or of the exact sum or difference as \<open>aligned_sum\<close> describes
  it:

    \<^item> a product, a sum or a difference whose exponent lies within \<open>[kMinExp, kMaxExp]\<close> and
      whose mantissa, once its low-order zero bits are removed, is wider than \<open>kMaxPrec\<close> bits
      is NaN;
    \<^item> when the exponent is below \<open>kMinExp\<close> the result is the signed zero, and when it is
      above \<open>kMaxExp\<close> the signed infinity, of the sign of the exact result, however wide
      the mantissa is: \<^verbatim>\<open>Canonicalize\<close> tests the exponent before the precision;
    \<^item> a product that comes back normal is the exact product;
    \<^item> every result of \<^verbatim>\<open>operator*\<close>, \<^verbatim>\<open>operator+\<close> and \<^verbatim>\<open>operator-\<close>, NaN or not, has a
      mantissa of at most \<open>kMaxPrec\<close> bits.
\<close>

theorem C2_precision_overflow_is_nan:
  assumes "consts_ok K" "canonical K a" "canonical K b"
  shows "(is_normal K a \<and> is_normal K b
            \<and> kMinExp K \<le> bn_exp_m a + bn_exp_m b + BN_num_bits (bn_m a * bn_m b)
            \<and> bn_exp_m a + bn_exp_m b + BN_num_bits (bn_m a * bn_m b) \<le> kMaxExp K
            \<and> kMaxPrec K < BN_num_bits (bn_m a * bn_m b)
          \<longrightarrow> times_xf K a b = NaN K)
     \<and> (is_normal K a \<and> is_normal K b
            \<and> bn_m (aligned_sum (sign_m a) a (sign_m b) b) \<noteq> 0
            \<and> kMinExp K \<le> exp_xf (aligned_sum (sign_m a) a (sign_m b) b)
            \<and> exp_xf (aligned_sum (sign_m a) a (sign_m b) b) \<le> kMaxExp K
            \<and> kMaxPrec K < BN_num_bits (odd_part (bn_m (aligned_sum (sign_m a) a (sign_m b) b)))
          \<longrightarrow> plus_xf K a b = NaN K)
     \<and> (is_normal K a \<and> is_normal K b
            \<and> bn_m (aligned_sum (sign_m a) a (- sign_m b) b) \<noteq> 0
            \<and> kMinExp K \<le> exp_xf (aligned_sum (sign_m a) a (- sign_m b) b)
            \<and> exp_xf (aligned_sum (sign_m a) a (- sign_m b) b) \<le> kMaxExp K
            \<and> kMaxPrec K < BN_num_bits (odd_part (bn_m (aligned_sum (sign_m a) a (- sign_m b) b)))
          \<longrightarrow> minus_xf K a b = NaN K)
     \<and> (is_normal K a \<and> is_normal K b
            \<and> bn_exp_m a + bn_exp_m b + BN_num_bits (bn_m a * bn_m b) < kMinExp K
          \<longrightarrow> times_xf K a b = SignedZero K (sign_m a * sign_m b))
     \<and> (is_normal K a \<and> is_normal K b
            \<and> kMaxExp K < bn_exp_m a + bn_exp_m b + BN_num_bits (bn_m a * bn_m b)
          \<longrightarrow> times_xf K a b = Infinity K (sign_m a * sign_m b))
     \<and> (is_normal K a \<and> is_normal K b
            \<and> exp_xf (aligned_sum (sign_m a) a (sign_m b) b) < kMinExp K
          \<longrightarrow> plus_xf K a b = SignedZero K (sign_m (aligned_sum (sign_m a) a (sign_m b) b)))
     \<and> (is_normal K a \<and> is_normal K b
            \<and> bn_m (aligned_sum (sign_m a) a (sign_m b) b) \<noteq> 0
            \<and> kMaxExp K < exp_xf (aligned_sum (sign_m a) a (sign_m b) b)
          \<longrightarrow> plus_xf K a b = Infinity K (sign_m (aligned_sum (sign_m a) a (sign_m b) b)))
     \<and> (is_normal K a \<and> is_normal K b
            \<and> exp_xf (aligned_sum (sign_m a) a (- sign_m b) b) < kMinExp K
          \<longrightarrow> minus_xf K a b = SignedZero K (sign_m (aligned_sum (sign_m a) a (- sign_m b) b)))
     \<and> (is_normal K a \<and> is_normal K b
            \<and> bn_m (aligned_sum (sign_m a) a (- sign_m b) b) \<noteq> 0
            \<and> kMaxExp K < exp_xf (aligned_sum (sign_m a) a (- sign_m b) b)
          \<longrightarrow> minus_xf K a b = Infinity K (sign_m (aligned_sum (sign_m a) a (- sign_m b) b)))
     \<and> (is_normal K (times_xf K a b) \<longrightarrow> value_of (times_xf K a b) = value_of a * value_of b)
     \<and> prec (times_xf K a b) \<le> kMaxPrec K
     \<and> prec (plus_xf K a b) \<le> kMaxPrec K
     \<and> prec (minus_xf K a b) \<le> kMaxPrec K"
proof (intro conjI impI)
  note K = assms(1) and ca = assms(2) and cb = assms(3)
  have sb': "- sign_m b = 1 \<or> - sign_m b = - 1" using canonical_sign [OF cb] by auto
  show "prec (times_xf K a b) \<le> kMaxPrec K"
    by (rule canonical_prec [OF K times_canonical [OF K ca cb]])
  show "prec (plus_xf K a b) \<le> kMaxPrec K"
    unfolding plus_xf_def
    by (rule canonical_prec [OF K SignedSum_canonical [OF K ca cb canonical_sign [OF ca]
            canonical_sign [OF cb]]])
  show "prec (minus_xf K a b) \<le> kMaxPrec K"
    unfolding minus_xf_def
    by (rule canonical_prec [OF K SignedSum_canonical [OF K ca cb canonical_sign [OF ca] sb']])
  show "value_of (times_xf K a b) = value_of a * value_of b" if r: "is_normal K (times_xf K a b)"
  proof -
    have n: "is_normal K a \<and> is_normal K b"
    proof (rule ccontr)
      assume "\<not> (is_normal K a \<and> is_normal K b)"
      then have "times_xf K a b = a \<and> \<not> is_normal K a \<or> times_xf K a b = b \<and> \<not> is_normal K b
          \<or> times_xf K a b = NaN K \<or> times_xf K a b = Infinity K (sign_m a * sign_m b)
          \<or> times_xf K a b = SignedZero K (sign_m a * sign_m b)"
        by (auto simp add: times_xf_def Let_def is_normal_def)
      then show False using r special_distinct(5,6,7) [OF K] by auto
    qed
    note t = times_normal [OF K ca cb]
    have "value_of (times_xf K a b) = value_of
      \<lparr> sign_m = sign_m a * sign_m b, bn_exp_m = bn_exp_m a + bn_exp_m b, bn_m = bn_m a * bn_m b \<rparr>"
      using Canonicalize_normal_value [OF K t(2)] t(1,3) n r by simp
    then show ?thesis by (simp only: value_of_product)
  qed
next
  assume h: "is_normal K a \<and> is_normal K b
            \<and> kMinExp K \<le> bn_exp_m a + bn_exp_m b + BN_num_bits (bn_m a * bn_m b)
            \<and> bn_exp_m a + bn_exp_m b + BN_num_bits (bn_m a * bn_m b) \<le> kMaxExp K
            \<and> kMaxPrec K < BN_num_bits (bn_m a * bn_m b)"
  then show "times_xf K a b = NaN K"
    using product_out_of_range(1) [OF assms] by simp
next
  assume h: "is_normal K a \<and> is_normal K b
            \<and> bn_exp_m a + bn_exp_m b + BN_num_bits (bn_m a * bn_m b) < kMinExp K"
  then show "times_xf K a b = SignedZero K (sign_m a * sign_m b)"
    using product_out_of_range(2) [OF assms] by simp
next
  assume h: "is_normal K a \<and> is_normal K b
            \<and> kMaxExp K < bn_exp_m a + bn_exp_m b + BN_num_bits (bn_m a * bn_m b)"
  then show "times_xf K a b = Infinity K (sign_m a * sign_m b)"
    using product_out_of_range(3) [OF assms] by simp
next
  let ?p = "aligned_sum (sign_m a) a (sign_m b) b"
  assume h: "is_normal K a \<and> is_normal K b
            \<and> bn_m ?p \<noteq> 0 \<and> kMinExp K \<le> exp_xf ?p \<and> exp_xf ?p \<le> kMaxExp K
            \<and> kMaxPrec K < BN_num_bits (odd_part (bn_m ?p))"
  then have na: "is_normal K a" and nb: "is_normal K b" by simp_all
  show "plus_xf K a b = NaN K"
    unfolding plus_minus_aligned(1) [OF assms na nb]
    using sum_out_of_range(1) [OF assms(1,2) na, of "sign_m a" "sign_m b" b] h by simp
next
  let ?p = "aligned_sum (sign_m a) a (- sign_m b) b"
  assume h: "is_normal K a \<and> is_normal K b
            \<and> bn_m ?p \<noteq> 0 \<and> kMinExp K \<le> exp_xf ?p \<and> exp_xf ?p \<le> kMaxExp K
            \<and> kMaxPrec K < BN_num_bits (odd_part (bn_m ?p))"
  then have na: "is_normal K a" and nb: "is_normal K b" by simp_all
  show "minus_xf K a b = NaN K"
    unfolding plus_minus_aligned(2) [OF assms na nb]
    using sum_out_of_range(1) [OF assms(1,2) na, of "sign_m a" "- sign_m b" b] h by simp
next
  let ?p = "aligned_sum (sign_m a) a (sign_m b) b"
  assume h: "is_normal K a \<and> is_normal K b \<and> exp_xf ?p < kMinExp K"
  then have na: "is_normal K a" and nb: "is_normal K b" by simp_all
  show "plus_xf K a b = SignedZero K (sign_m ?p)"
    unfolding plus_minus_aligned(1) [OF assms na nb]
    using sum_out_of_range(2) [OF assms(1,2) na, of "sign_m a" "sign_m b" b] h by simp
next
  let ?p = "aligned_sum (sign_m a) a (sign_m b) b"
  assume h: "is_normal K a \<and> is_normal K b \<and> bn_m ?p \<noteq> 0 \<and> kMaxExp K < exp_xf ?p"
  then have na: "is_normal K a" and nb: "is_normal K b" by simp_all
  show "plus_xf K a b = Infinity K (sign_m ?p)"
    unfolding plus_minus_aligned(1) [OF assms na nb]
    using sum_out_of_range(3) [OF assms(1,2) na, of "sign_m a" "sign_m b" b] h by simp
next
  let ?p = "aligned_sum (sign_m a) a (- sign_m b) b"
  assume h: "is_normal K a \<and> is_normal K b \<and> exp_xf ?p < kMinExp K"
  then have na: "is_normal K a" and nb: "is_normal K b" by simp_all
  show "minus_xf K a b = SignedZero K (sign_m ?p)"
    unfolding plus_minus_aligned(2) [OF assms na nb]
    using sum_out_of_range(2) [OF assms(1,2) na, of "sign_m a" "- sign_m b" b] h by simp
next
  let ?p = "aligned_sum (sign_m a) a (- sign_m b) b"
  assume h: "is_normal K a \<and> is_normal K b \<and> bn_m ?p \<noteq> 0 \<and> kMaxExp K < exp_xf ?p"
  then have na: "is_normal K a" and nb: "is_normal K b" by simp_all
  show "minus_xf K a b = Infinity K (sign_m ?p)"
    unfolding plus_minus_aligned(2) [OF assms na nb]
    using sum_out_of_range(3) [OF assms(1,2) na, of "sign_m a" "- sign_m b" b] h by simp
qed

theorem C2_precision_overflow_is_nan_witness:
  "consts_ok tiny_consts
   \<and> canonical tiny_consts \<lparr> sign_m = 1, bn_exp_m = 0, bn_m = 18446744073709551615 \<rparr>
   \<and> canonical tiny_consts \<lparr> sign_m = 1, bn_exp_m = 0, bn_m = 3 \<rparr>
   \<and> kMaxPrec tiny_consts < BN_num_bits (18446744073709551615 * 3)
   \<and> times_xf tiny_consts \<lparr> sign_m = 1, bn_exp_m = 0, bn_m = 18446744073709551615 \<rparr>
         \<lparr> sign_m = 1, bn_exp_m = 0, bn_m = 3 \<rparr> = NaN tiny_consts
   \<and> canonical tiny_consts \<lparr> sign_m = 1, bn_exp_m = 64, bn_m = 1 \<rparr>
   \<and> canonical tiny_consts \<lparr> sign_m = 1, bn_exp_m = 0, bn_m = 1 \<rparr>
   \<and> plus_xf tiny_consts \<lparr> sign_m = 1, bn_exp_m = 64, bn_m = 1 \<rparr>
         \<lparr> sign_m = 1, bn_exp_m = 0, bn_m = 1 \<rparr> = NaN tiny_consts
   \<and> canonical tiny_consts \<lparr> sign_m = 1, bn_exp_m = 65, bn_m = 1 \<rparr>
   \<and> minus_xf tiny_consts \<lparr> sign_m = 1, bn_exp_m = 65, bn_m = 1 \<rparr>
         \<lparr> sign_m = 1, bn_exp_m = 0, bn_m = 1 \<rparr> = NaN tiny_consts
   \<and> is_normal tiny_consts (times_xf tiny_consts \<lparr> sign_m = 1, bn_exp_m = 0, bn_m = 3 \<rparr>
         \<lparr> sign_m = 1, bn_exp_m = 64, bn_m = 1 \<rparr>)
   \<and> value_of (times_xf tiny_consts \<lparr> sign_m = 1, bn_exp_m = 0, bn_m = 3 \<rparr>
         \<lparr> sign_m = 1, bn_exp_m = 64, bn_m = 1 \<rparr>)
       = value_of \<lparr> sign_m = 1, bn_exp_m = 0, bn_m = 3 \<rparr>
         * value_of \<lparr> sign_m = 1, bn_exp_m = 64, bn_m = 1 \<rparr>
   \<and> consts_ok sample_consts
   \<and> canonical sample_consts \<lparr> sign_m = 1, bn_exp_m = 199999998, bn_m = 3 \<rparr>
   \<and> canonical sample_consts \<lparr> sign_m = - 1, bn_exp_m = 3, bn_m = 5 \<rparr>
   \<and> times_xf sample_consts \<lparr> sign_m = 1, bn_exp_m = 199999998, bn_m = 3 \<rparr>
         \<lparr> sign_m = - 1, bn_exp_m = 3, bn_m = 5 \<rparr> = Infinity sample_consts (- 1)
   \<and> canonical sample_consts \<lparr> sign_m = - 1, bn_exp_m = - 199999999, bn_m = 3 \<rparr>
   \<and> canonical sample_consts \<lparr> sign_m = - 1, bn_exp_m = - 9, bn_m = 5 \<rparr>
   \<and> times_xf sample_consts \<lparr> sign_m = - 1, bn_exp_m = - 199999999, bn_m = 3 \<rparr>
         \<lparr> sign_m = - 1, bn_exp_m = - 9, bn_m = 5 \<rparr> = SignedZero sample_consts 1
   \<and> minus_xf sample_consts \<lparr> sign_m = 1, bn_exp_m = 199999998, bn_m = 3 \<rparr>
         \<lparr> sign_m = - 1, bn_exp_m = 199999998, bn_m = 3 \<rparr> = Infinity sample_consts 1"
proof -
  let ?w = "\<lparr> sign_m = 1, bn_exp_m = 0, bn_m = 18446744073709551615 \<rparr>"
  let ?three = "\<lparr> sign_m = 1, bn_exp_m = 0, bn_m = 3 \<rparr>"
  let ?big = "\<lparr> sign_m = 1, bn_exp_m = 64, bn_m = 1 \<rparr>"
  let ?bigger = "\<lparr> sign_m = 1, bn_exp_m = 65, bn_m = 1 \<rparr>"
  let ?one = "\<lparr> sign_m = 1, bn_exp_m = 0, bn_m = 1 \<rparr>"
  let ?hi = "\<lparr> sign_m = 1, bn_exp_m = 199999998, bn_m = 3 \<rparr>"
  let ?nhi = "\<lparr> sign_m = - 1, bn_exp_m = 199999998, bn_m = 3 \<rparr>"
  let ?m40 = "\<lparr> sign_m = - 1, bn_exp_m = 3, bn_m = 5 \<rparr>"
  let ?lo = "\<lparr> sign_m = - 1, bn_exp_m = - 199999999, bn_m = 3 \<rparr>"
  let ?sm = "\<lparr> sign_m = - 1, bn_exp_m = - 9, bn_m = 5 \<rparr>"
  have c: "canonical tiny_consts ?w" "canonical tiny_consts ?three"
    "canonical tiny_consts ?big" "canonical tiny_consts ?one" "canonical tiny_consts ?bigger"
    by (simp_all add: xf_eval)
  have n: "is_normal tiny_consts ?w" "is_normal tiny_consts ?three"
    "is_normal tiny_consts ?big" "is_normal tiny_consts ?one" "is_normal tiny_consts ?bigger"
    by (simp_all add: normal_iff tiny_consts_def)
  have w: "kMaxPrec tiny_consts < BN_num_bits (18446744073709551615 * 3)"
    by (simp add: xf_eval)
  have r1: "kMinExp tiny_consts \<le> bn_exp_m ?w + bn_exp_m ?three + BN_num_bits (bn_m ?w * bn_m ?three)"
    "bn_exp_m ?w + bn_exp_m ?three + BN_num_bits (bn_m ?w * bn_m ?three) \<le> kMaxExp tiny_consts"
    "kMaxPrec tiny_consts < BN_num_bits (bn_m ?w * bn_m ?three)"
    by (simp_all add: xf_eval)
  have t: "times_xf tiny_consts ?w ?three = NaN tiny_consts"
    using C2_precision_overflow_is_nan [OF tiny_consts_ok c(1,2)] n(1,2) r1 by simp
  have r2: "bn_m (aligned_sum (sign_m ?big) ?big (sign_m ?one) ?one) \<noteq> 0"
    "kMinExp tiny_consts \<le> exp_xf (aligned_sum (sign_m ?big) ?big (sign_m ?one) ?one)"
    "exp_xf (aligned_sum (sign_m ?big) ?big (sign_m ?one) ?one) \<le> kMaxExp tiny_consts"
    "kMaxPrec tiny_consts < BN_num_bits (odd_part (bn_m (aligned_sum (sign_m ?big) ?big (sign_m ?one) ?one)))"
    by (simp_all add: xf_eval)
  have p: "plus_xf tiny_consts ?big ?one = NaN tiny_consts"
    using C2_precision_overflow_is_nan [OF tiny_consts_ok c(3,4)] n(3,4) r2 by simp
  have al: "aligned_sum (sign_m ?bigger) ?bigger (- sign_m ?one) ?one
      = \<lparr> sign_m = 1, bn_exp_m = 0, bn_m = 36893488147419103231 \<rparr>"
    by (simp add: aligned_sum_def)
  have r3: "bn_m (aligned_sum (sign_m ?bigger) ?bigger (- sign_m ?one) ?one) \<noteq> 0"
    "kMinExp tiny_consts \<le> exp_xf (aligned_sum (sign_m ?bigger) ?bigger (- sign_m ?one) ?one)"
    "exp_xf (aligned_sum (sign_m ?bigger) ?bigger (- sign_m ?one) ?one) \<le> kMaxExp tiny_consts"
    "kMaxPrec tiny_consts
       < BN_num_bits (odd_part (bn_m (aligned_sum (sign_m ?bigger) ?bigger (- sign_m ?one) ?one)))"
    unfolding al by (simp_all add: xf_eval)
  have m: "minus_xf tiny_consts ?bigger ?one = NaN tiny_consts"
    using C2_precision_overflow_is_nan [OF tiny_consts_ok c(5,4)] n(5,4) r3 by simp
  have nt: "is_normal tiny_consts (times_xf tiny_consts ?three ?big)"
    by (simp add: xf_eval)
  have v: "value_of (times_xf tiny_consts ?three ?big) = value_of ?three * value_of ?big"
    using C2_precision_overflow_is_nan [OF tiny_consts_ok c(2,3)] nt by simp
  have cs: "canonical sample_consts ?hi" "canonical sample_consts ?m40"
    "canonical sample_consts ?lo" "canonical sample_consts ?sm" "canonical sample_consts ?nhi"
    by (simp_all add: xf_eval)
  have ns: "is_normal sample_consts ?hi" "is_normal sample_consts ?m40"
    "is_normal sample_consts ?lo" "is_normal sample_consts ?sm" "is_normal sample_consts ?nhi"
    by (simp_all add: normal_iff sample_consts_def)
  have r4: "kMaxExp sample_consts < bn_exp_m ?hi + bn_exp_m ?m40 + BN_num_bits (bn_m ?hi * bn_m ?m40)"
    "sign_m ?hi * sign_m ?m40 = - 1"
    by (simp_all add: xf_eval)
  have o: "times_xf sample_consts ?hi ?m40 = Infinity sample_consts (- 1)"
    using C2_precision_overflow_is_nan [OF sample_consts_ok cs(1,2)] ns(1,2) r4 by simp
  have r5: "bn_exp_m ?lo + bn_exp_m ?sm + BN_num_bits (bn_m ?lo * bn_m ?sm) < kMinExp sample_consts"
    "sign_m ?lo * sign_m ?sm = 1"
    by (simp_all add: xf_eval)
  have u: "times_xf sample_consts ?lo ?sm = SignedZero sample_consts 1"
    using C2_precision_overflow_is_nan [OF sample_consts_ok cs(3,4)] ns(3,4) r5 by simp
  have al2: "aligned_sum (sign_m ?hi) ?hi (- sign_m ?nhi) ?nhi
      = \<lparr> sign_m = 1, bn_exp_m = 199999998, bn_m = 6 \<rparr>"
    by (simp add: aligned_sum_def)
  have r6: "bn_m (aligned_sum (sign_m ?hi) ?hi (- sign_m ?nhi) ?nhi) \<noteq> 0"
    "kMaxExp sample_consts < exp_xf (aligned_sum (sign_m ?hi) ?hi (- sign_m ?nhi) ?nhi)"
    "sign_m (aligned_sum (sign_m ?hi) ?hi (- sign_m ?nhi) ?nhi) = 1"
    unfolding al2 by (simp_all add: xf_eval)
  have d: "minus_xf sample_consts ?hi ?nhi = Infinity sample_consts 1"
    using C2_precision_overflow_is_nan [OF sample_consts_ok cs(1,5)] ns(1,5) r6 by simp
  show ?thesis using tiny_consts_ok sample_consts_ok c w t p m nt v cs(1-4) o u d by (intro conjI)
qed

theorem C2_exponent_first_counterexample:
  "canonical tiny_consts \<lparr> sign_m = 1, bn_exp_m = 1036, bn_m = 18446744073709551615 \<rparr>
   \<and> canonical tiny_consts \<lparr> sign_m = 1, bn_exp_m = 0, bn_m = 3 \<rparr>
   \<and> kMaxPrec tiny_consts < BN_num_bits (18446744073709551615 * 3)
   \<and> times_xf tiny_consts \<lparr> sign_m = 1, bn_exp_m = 1036, bn_m = 18446744073709551615 \<rparr>
         \<lparr> sign_m = 1, bn_exp_m = 0, bn_m = 3 \<rparr> = Infinity tiny_consts 1
   \<and> \<not> is_nan tiny_consts
         (times_xf tiny_consts \<lparr> sign_m = 1, bn_exp_m = 1036, bn_m = 18446744073709551615 \<rparr>
           \<lparr> sign_m = 1, bn_exp_m = 0, bn_m = 3 \<rparr>)
   \<and> canonical tiny_consts \<lparr> sign_m = 1, bn_exp_m = - 1163, bn_m = 18446744073709551615 \<rparr>
   \<and> canonical tiny_consts \<lparr> sign_m = 1, bn_exp_m = - 4, bn_m = 3 \<rparr>
   \<and> times_xf tiny_consts \<lparr> sign_m = 1, bn_exp_m = - 1163, bn_m = 18446744073709551615 \<rparr>
         \<lparr> sign_m = 1, bn_exp_m = - 4, bn_m = 3 \<rparr> = SignedZero tiny_consts 1
   \<and> \<not> is_nan tiny_consts
         (times_xf tiny_consts \<lparr> sign_m = 1, bn_exp_m = - 1163, bn_m = 18446744073709551615 \<rparr>
           \<lparr> sign_m = 1, bn_exp_m = - 4, bn_m = 3 \<rparr>)"
  by (simp add: xf_eval)

section \<open>Comparison\<close>

lemma two_powi_pos [simp]: "0 < (2::real) powi e"
  by (simp add: power_int_def)

lemma two_powi_mono: "a \<le> b \<Longrightarrow> (2::real) powi a \<le> 2 powi b"
  by (rule power_int_increasing) simp_all

lemma mag_bounds:
  assumes "0 < bn_m x"
  shows "(2::real) powi (exp_xf x - 1) \<le> mag x" "mag x < (2::real) powi (exp_xf x)"
proof -
  let ?m = "bn_m x" and ?e = "bn_exp_m x"
  have ab: "\<bar>?m\<bar> = ?m" using assms by simp
  have b: "2 ^ nat (bitlen ?m - 1) \<le> ?m" "?m < 2 ^ nat (bitlen ?m)"
    using bitlen_bounds [OF assms] by simp_all
  have bp: "0 < bitlen ?m"
    using assms bitlen_eq_zero_iff [of ?m] bitlen_nonneg [of ?m] by linarith
  have r1: "(2::real) ^ nat (bitlen ?m - 1) \<le> of_int ?m"
    using b(1) by (metis of_int_le_iff of_int_numeral of_int_power)
  have r2: "real_of_int ?m < 2 ^ nat (bitlen ?m)"
    using b(2) by (metis of_int_less_iff of_int_numeral of_int_power)
  have p1: "(2::real) ^ nat (bitlen ?m - 1) = 2 powi (bitlen ?m - 1)"
    using bp by (simp add: power_int_def)
  have p2: "(2::real) ^ nat (bitlen ?m) = 2 powi (bitlen ?m)"
    using bp by (simp add: power_int_def)
  have "(2::real) powi (exp_xf x - 1) = 2 powi (bitlen ?m - 1) * 2 powi ?e"
    using two_powi_add [of "bitlen ?m - 1" ?e] ab
    by (simp add: exp_xf_def BN_num_bits_def algebra_simps)
  also have "\<dots> \<le> of_int ?m * 2 powi ?e"
    using r1 p1 by (simp add: mult_right_mono)
  finally show "2 powi (exp_xf x - 1) \<le> mag x" by (simp add: mag_def)
  have "mag x < 2 powi (bitlen ?m) * 2 powi ?e"
    unfolding mag_def using r2 p2 by (simp add: mult_strict_right_mono)
  also have "\<dots> = (2::real) powi (exp_xf x)"
    using two_powi_add [of "bitlen ?m" ?e] ab
    by (simp add: exp_xf_def BN_num_bits_def algebra_simps)
  finally show "mag x < 2 powi (exp_xf x)" .
qed

lemma mag_scale:
  assumes "bn_exp_m b \<le> bn_exp_m a"
  shows "mag a = of_int (bn_m a * 2 ^ nat (bn_exp_m a - bn_exp_m b)) * 2 powi bn_exp_m b"
proof -
  have "of_int (bn_m a * 2 ^ nat (bn_exp_m a - bn_exp_m b)) * 2 powi bn_exp_m b
      = of_int (bn_m a) * ((2::real) ^ nat (bn_exp_m a - bn_exp_m b) * 2 powi bn_exp_m b)"
    by simp
  also have "\<dots> = mag a" by (simp only: two_powi_split [OF assms] mag_def)
  finally show ?thesis by simp
qed

lemma UnsignedLess_normal:
  assumes na: "is_normal K a" and nb: "is_normal K b" and pa: "0 < bn_m a" and pb: "0 < bn_m b"
  shows "UnsignedLess K a b \<longleftrightarrow> mag a < mag b"
proof -
  have s: "\<not> is_inf K a" "\<not> is_zero K a" "\<not> is_inf K b" "\<not> is_zero K b"
    using na nb by (simp_all add: is_normal_def)
  consider (lt) "exp_xf a < exp_xf b" | (gt) "exp_xf a > exp_xf b"
    | (eq1) "exp_xf a = exp_xf b" "bn_exp_m b \<le> bn_exp_m a"
    | (eq2) "exp_xf a = exp_xf b" "bn_exp_m a < bn_exp_m b" by linarith
  then show ?thesis
  proof cases
    case lt
    have "mag a < 2 powi (exp_xf a)" by (rule mag_bounds(2) [OF pa])
    also have "\<dots> \<le> 2 powi (exp_xf b - 1)" using lt by (intro two_powi_mono) simp
    also have "\<dots> \<le> mag b" by (rule mag_bounds(1) [OF pb])
    finally show ?thesis using lt s by (simp add: UnsignedLess_def)
  next
    case gt
    have "mag b < 2 powi (exp_xf b)" by (rule mag_bounds(2) [OF pb])
    also have "\<dots> \<le> 2 powi (exp_xf a - 1)" using gt by (intro two_powi_mono) simp
    also have "\<dots> \<le> mag a" by (rule mag_bounds(1) [OF pa])
    finally show ?thesis using gt s by (simp add: UnsignedLess_def)
  next
    case eq1
    let ?A = "bn_m a * 2 ^ nat (bn_exp_m a - bn_exp_m b)"
    have A: "0 < ?A" using pa by simp
    have "UnsignedLess K a b \<longleftrightarrow> ?A < bn_m b"
      using eq1 s A pb by (simp add: UnsignedLess_def ScaleAndCompare_def BN_ucmp_def BN_lshift_def)
    also have "\<dots> \<longleftrightarrow> real_of_int ?A * 2 powi bn_exp_m b < of_int (bn_m b) * 2 powi bn_exp_m b"
      by (simp only: mult_less_cancel_right_pos [OF two_powi_pos] of_int_less_iff)
    also have "\<dots> \<longleftrightarrow> mag a < mag b"
      by (simp only: mag_scale [OF eq1(2), symmetric]) (simp add: mag_def)
    finally show ?thesis .
  next
    case eq2
    then have le: "bn_exp_m a \<le> bn_exp_m b" by simp
    let ?B = "bn_m b * 2 ^ nat (bn_exp_m b - bn_exp_m a)"
    have B: "0 < ?B" using pb by simp
    have "UnsignedLess K a b \<longleftrightarrow> bn_m a < ?B"
      using eq2 s B pa by (simp add: UnsignedLess_def ScaleAndCompare_def BN_ucmp_def BN_lshift_def)
    also have "\<dots> \<longleftrightarrow> of_int (bn_m a) * 2 powi bn_exp_m a < real_of_int ?B * 2 powi bn_exp_m a"
      by (simp only: mult_less_cancel_right_pos [OF two_powi_pos] of_int_less_iff)
    also have "\<dots> \<longleftrightarrow> mag a < mag b"
      by (simp only: mag_scale [OF le, symmetric]) (simp add: mag_def)
    finally show ?thesis .
  qed
qed


lemma odd_repr_unique_le:
  assumes o: "odd m" and p: "0 < m'" and le: "e \<le> e'"
    and eq: "real_of_int m * 2 powi e = of_int m' * 2 powi e'"
  shows "e = e' \<and> m = m'"
proof -
  have "of_int m' * (2::real) powi e' = of_int m' * (2 ^ nat (e' - e) * 2 powi e)"
    by (simp only: two_powi_split [OF le])
  also have "\<dots> = of_int (m' * 2 ^ nat (e' - e)) * 2 powi e" by simp
  finally have "real_of_int m * 2 powi e = of_int (m' * 2 ^ nat (e' - e)) * 2 powi e"
    using eq by simp
  then have "real_of_int m = of_int (m' * 2 ^ nat (e' - e))"
    using two_powi_pos [of e] by (simp only: mult_cancel_right) simp
  then have m: "m = m' * 2 ^ nat (e' - e)" by (simp only: of_int_eq_iff)
  have "nat (e' - e) = 0"
  proof (rule ccontr)
    assume "nat (e' - e) \<noteq> 0"
    then have "even ((2::int) ^ nat (e' - e))" by simp
    then have "even m" by (subst m) simp
    with o show False by simp
  qed
  then show ?thesis using m le by simp
qed

lemma odd_repr_unique:
  assumes "odd m" "odd m'" "0 < m" "0 < m'"
    and "real_of_int m * 2 powi e = of_int m' * 2 powi e'"
  shows "e = e' \<and> m = m'"
proof (cases "e \<le> e'")
  case True
  then show ?thesis using odd_repr_unique_le [OF assms(1,4) True assms(5)] by simp
next
  case False
  then have "e' \<le> e" by simp
  then show ?thesis using odd_repr_unique_le [OF assms(2,3) _ assms(5) [symmetric]] by simp
qed

lemma canonical_states:
  assumes K: "consts_ok K" and c: "canonical K x" and nn: "\<not> is_nan K x"
  obtains (N) "is_normal K x" "\<not> is_zero K x" "\<not> is_inf K x" "0 < bn_m x" "odd (bn_m x)" "0 < mag x"
  | (Z) "is_zero K x" "\<not> is_inf K x" "\<not> is_normal K x" "bn_m x = 0"
  | (I) "is_inf K x" "\<not> is_zero K x" "\<not> is_normal K x" "bn_m x = 0"
proof (cases "is_normal K x")
  case True
  note d = canonical_normalD [OF c True]
  have "0 < mag x" using d(2) by (simp add: mag_def)
  then show ?thesis using True d(1,2) N by (simp add: is_normal_def)
next
  case False
  then have b: "bn_m x = 0" using c by (simp add: canonical_def)
  from False nn have "is_zero K x \<or> is_inf K x" by (simp add: is_normal_def)
  then show ?thesis
  proof
    assume z: "is_zero K x"
    then have "\<not> is_inf K x" using consts_okD(9) [OF K] by (simp add: is_zero_def is_inf_def)
    then show ?thesis using Z z False b by simp
  next
    assume i: "is_inf K x"
    then have "\<not> is_zero K x" using consts_okD(9) [OF K] by (simp add: is_zero_def is_inf_def)
    then show ?thesis using I i False b by simp
  qed
qed

lemma value_of_mag: "value_of x = of_int (sign_m x) * mag x"
  by (simp add: value_of_def mag_def)

lemma eq_xf_represented:
  assumes K: "consts_ok K" and ca: "canonical K a" and cb: "canonical K b"
    and nna: "\<not> is_nan K a" and nnb: "\<not> is_nan K b"
  shows "eq_xf K a b \<longleftrightarrow> represented K a = represented K b"
proof -
  note sa = canonical_sign [OF ca] and sb = canonical_sign [OF cb]
  note k = consts_okD [OF K]
  show ?thesis
  proof (cases rule: canonical_states [OF K ca nna, case_names N Z I])
    case N
    note a = N
    show ?thesis
    proof (cases rule: canonical_states [OF K cb nnb, case_names N Z I])
      case N
      have "eq_xf K a b \<longleftrightarrow> bn_exp_m a = bn_exp_m b \<and> sign_m a = sign_m b \<and> bn_m a = bn_m b"
        using a N nna nnb by (auto simp add: eq_xf_def BN_ucmp_def)
      also have "\<dots> \<longleftrightarrow> value_of a = value_of b"
      proof
        assume "bn_exp_m a = bn_exp_m b \<and> sign_m a = sign_m b \<and> bn_m a = bn_m b"
        then show "value_of a = value_of b" by (simp add: value_of_def)
      next
        assume v: "value_of a = value_of b"
        then have e: "of_int (sign_m a) * mag a = of_int (sign_m b) * mag b"
          by (simp only: value_of_mag)
        have s: "sign_m a = sign_m b"
        proof (rule ccontr)
          assume "sign_m a \<noteq> sign_m b"
          then have "sign_m a = - sign_m b" using sa sb by auto
          then have "mag a + mag b = 0" using e sa sb by auto
          then show False using a(6) N(6) by linarith
        qed
        then have "mag a = mag b" using e sb by auto
        then have "bn_exp_m a = bn_exp_m b \<and> bn_m a = bn_m b"
          unfolding mag_def by (rule odd_repr_unique [OF a(5) N(5) a(4) N(4)])
        then show "bn_exp_m a = bn_exp_m b \<and> sign_m a = sign_m b \<and> bn_m a = bn_m b"
          using s by simp
      qed
      finally show ?thesis using a N by (simp add: represented_def)
    next
      case Z
      have "value_of a \<noteq> 0" using a(6) sa by (auto simp add: value_of_mag)
      moreover have "bn_exp_m a \<noteq> bn_exp_m b" using a(2) Z(1) by (auto simp add: is_zero_def)
      ultimately show ?thesis using a Z nna nnb by (simp add: eq_xf_def represented_def)
    next
      case I
      have "bn_exp_m a \<noteq> bn_exp_m b" using a(3) I(1) by (auto simp add: is_inf_def)
      then show ?thesis using a I nna nnb by (simp add: eq_xf_def represented_def)
    qed
  next
    case Z
    note a = Z
    show ?thesis
    proof (cases rule: canonical_states [OF K cb nnb, case_names N Z I])
      case N
      have "value_of b \<noteq> 0" using N(6) sb by (auto simp add: value_of_mag)
      moreover have "bn_exp_m a \<noteq> bn_exp_m b" using a(1) N(2) by (auto simp add: is_zero_def)
      ultimately show ?thesis using a N nna nnb by (simp add: eq_xf_def represented_def)
    next
      case Z
      then show ?thesis using a nna nnb by (simp add: eq_xf_def represented_def is_zero_def)
    next
      case I
      have "bn_exp_m a \<noteq> bn_exp_m b" using a(2) I(1) by (auto simp add: is_inf_def)
      then show ?thesis using a I nna nnb by (simp add: eq_xf_def represented_def)
    qed
  next
    case I
    note a = I
    show ?thesis
    proof (cases rule: canonical_states [OF K cb nnb, case_names N Z I])
      case N
      have "bn_exp_m a \<noteq> bn_exp_m b" using a(1) N(3) by (auto simp add: is_inf_def)
      then show ?thesis using a N nna nnb by (simp add: eq_xf_def represented_def)
    next
      case Z
      have "bn_exp_m a \<noteq> bn_exp_m b" using a(1) Z(2) by (auto simp add: is_inf_def)
      then show ?thesis using a Z nna nnb by (simp add: eq_xf_def represented_def)
    next
      case I
      have "bn_exp_m a = bn_exp_m b" using a(1) I(1) by (simp add: is_inf_def)
      then show ?thesis using a I nna nnb sa sb
        by (auto simp add: eq_xf_def represented_def BN_ucmp_def)
    qed
  qed
qed


lemma less_xf_represented:
  assumes K: "consts_ok K" and ca: "canonical K a" and cb: "canonical K b"
    and nna: "\<not> is_nan K a" and nnb: "\<not> is_nan K b"
  shows "less_xf K a b \<longleftrightarrow> ext_less (represented K a) (represented K b)"
proof -
  note sa = canonical_sign [OF ca] and sb = canonical_sign [OF cb]
  from sa sb consider (pp) "sign_m a = 1" "sign_m b = 1" | (pm) "sign_m a = 1" "sign_m b = - 1"
    | (mp) "sign_m a = - 1" "sign_m b = 1" | (mm) "sign_m a = - 1" "sign_m b = - 1" by blast
  note sg = this
  show ?thesis
  proof (cases rule: canonical_states [OF K ca nna, case_names N Z I])
    case N
    note a = N
    show ?thesis
    proof (cases rule: canonical_states [OF K cb nnb, case_names N Z I])
      case N
      note u1 = UnsignedLess_normal [OF a(1) N(1) a(4) N(4)]
      note u2 = UnsignedLess_normal [OF N(1) a(1) N(4) a(4)]
      have r: "ext_less (represented K a) (represented K b)
          \<longleftrightarrow> of_int (sign_m a) * mag a < of_int (sign_m b) * mag b"
        using a N by (simp add: represented_def value_of_mag)
      show ?thesis using sg
      proof cases
        case pp then show ?thesis using a N nna nnb u1 by (simp add: less_xf_def r)
      next
        case pm then show ?thesis using a N nna nnb by (simp add: less_xf_def r)
      next
        case mp then show ?thesis using a N nna nnb by (simp add: less_xf_def r)
      next
        case mm then show ?thesis using a N nna nnb u2 by (simp add: less_xf_def r)
      qed
    next
      case Z
      have r: "ext_less (represented K a) (represented K b) \<longleftrightarrow> of_int (sign_m a) * mag a < 0"
        using a Z by (simp add: represented_def value_of_mag)
      show ?thesis using sg
      proof cases
        case pp then show ?thesis using a Z nna nnb by (simp add: less_xf_def UnsignedLess_def r)
      next
        case pm then show ?thesis using a Z nna nnb by (simp add: less_xf_def UnsignedLess_def r)
      next
        case mp then show ?thesis using a Z nna nnb by (simp add: less_xf_def UnsignedLess_def r)
      next
        case mm then show ?thesis using a Z nna nnb by (simp add: less_xf_def UnsignedLess_def r)
      qed
    next
      case I
      show ?thesis using sg
      proof cases
        case pp then show ?thesis using a I nna nnb by (simp add: less_xf_def UnsignedLess_def represented_def)
      next
        case pm then show ?thesis using a I nna nnb by (simp add: less_xf_def UnsignedLess_def represented_def)
      next
        case mp then show ?thesis using a I nna nnb by (simp add: less_xf_def UnsignedLess_def represented_def)
      next
        case mm then show ?thesis using a I nna nnb by (simp add: less_xf_def UnsignedLess_def represented_def)
      qed
    qed
  next
    case Z
    note a = Z
    show ?thesis
    proof (cases rule: canonical_states [OF K cb nnb, case_names N Z I])
      case N
      have r: "ext_less (represented K a) (represented K b) \<longleftrightarrow> 0 < of_int (sign_m b) * mag b"
        using a N by (simp add: represented_def value_of_mag)
      show ?thesis using sg
      proof cases
        case pp then show ?thesis using a N nna nnb by (simp add: less_xf_def UnsignedLess_def r)
      next
        case pm then show ?thesis using a N nna nnb by (simp add: less_xf_def UnsignedLess_def r)
      next
        case mp then show ?thesis using a N nna nnb by (simp add: less_xf_def UnsignedLess_def r)
      next
        case mm then show ?thesis using a N nna nnb by (simp add: less_xf_def UnsignedLess_def r)
      qed
    next
      case Z
      then show ?thesis using a nna nnb by (simp add: less_xf_def represented_def)
    next
      case I
      show ?thesis using sg
      proof cases
        case pp then show ?thesis using a I nna nnb by (simp add: less_xf_def UnsignedLess_def represented_def)
      next
        case pm then show ?thesis using a I nna nnb by (simp add: less_xf_def UnsignedLess_def represented_def)
      next
        case mp then show ?thesis using a I nna nnb by (simp add: less_xf_def UnsignedLess_def represented_def)
      next
        case mm then show ?thesis using a I nna nnb by (simp add: less_xf_def UnsignedLess_def represented_def)
      qed
    qed
  next
    case I
    note a = I
    show ?thesis
    proof (cases rule: canonical_states [OF K cb nnb, case_names N Z I])
      case N
      show ?thesis using sg
      proof cases
        case pp then show ?thesis using a N nna nnb by (simp add: less_xf_def UnsignedLess_def represented_def)
      next
        case pm then show ?thesis using a N nna nnb by (simp add: less_xf_def UnsignedLess_def represented_def)
      next
        case mp then show ?thesis using a N nna nnb by (simp add: less_xf_def UnsignedLess_def represented_def)
      next
        case mm then show ?thesis using a N nna nnb by (simp add: less_xf_def UnsignedLess_def represented_def)
      qed
    next
      case Z
      show ?thesis using sg
      proof cases
        case pp then show ?thesis using a Z nna nnb by (simp add: less_xf_def UnsignedLess_def represented_def)
      next
        case pm then show ?thesis using a Z nna nnb by (simp add: less_xf_def UnsignedLess_def represented_def)
      next
        case mp then show ?thesis using a Z nna nnb by (simp add: less_xf_def UnsignedLess_def represented_def)
      next
        case mm then show ?thesis using a Z nna nnb by (simp add: less_xf_def UnsignedLess_def represented_def)
      qed
    next
      case I
      show ?thesis using sg
      proof cases
        case pp then show ?thesis using a I nna nnb by (simp add: less_xf_def UnsignedLess_def represented_def)
      next
        case pm then show ?thesis using a I nna nnb by (simp add: less_xf_def UnsignedLess_def represented_def)
      next
        case mp then show ?thesis using a I nna nnb by (simp add: less_xf_def UnsignedLess_def represented_def)
      next
        case mm then show ?thesis using a I nna nnb by (simp add: less_xf_def UnsignedLess_def represented_def)
      qed
    qed
  qed
qed


lemma nan_unordered:
  "is_nan K a \<or> is_nan K b \<Longrightarrow>
     \<not> eq_xf K a b \<and> \<not> eq_xf K b a \<and> \<not> less_xf K a b \<and> \<not> less_xf K b a"
  by (auto simp add: eq_xf_def less_xf_def)

lemma signed_zeros_compare:
  "eq_xf K (SignedZero K 1) (SignedZero K (- 1))" "eq_xf K (SignedZero K (- 1)) (SignedZero K 1)"
  "\<not> less_xf K (SignedZero K 1) (SignedZero K (- 1))"
  "\<not> less_xf K (SignedZero K (- 1)) (SignedZero K 1)" if "consts_ok K"
  using special_simps(2) [of K] special_distinct(1) [OF that]
  by (simp_all add: eq_xf_def less_xf_def) (simp_all add: SignedZero_def set_zero_def)

text \<open>
  C7. Comparison of canonical values: whenever either operand is NaN, \<^verbatim>\<open>==\<close> and \<^verbatim>\<open><\<close> are
  false in both orders (so NaN is not equal to itself); \<open>+0 == -0\<close> holds in both orders and
  neither zero is less than the other; and for operands that are not NaN, \<^verbatim>\<open>==\<close> holds
  exactly when both stand for the same extended real and \<^verbatim>\<open><\<close> exactly when the first stands
  for a smaller one (infinities by sign, both zeros as 0).
\<close>

theorem C7_comparison:
  assumes "consts_ok K" "canonical K a" "canonical K b"
  shows "(is_nan K a \<or> is_nan K b \<longrightarrow>
            \<not> eq_xf K a b \<and> \<not> eq_xf K b a \<and> \<not> less_xf K a b \<and> \<not> less_xf K b a)
     \<and> eq_xf K (SignedZero K 1) (SignedZero K (- 1))
     \<and> eq_xf K (SignedZero K (- 1)) (SignedZero K 1)
     \<and> \<not> less_xf K (SignedZero K 1) (SignedZero K (- 1))
     \<and> \<not> less_xf K (SignedZero K (- 1)) (SignedZero K 1)
     \<and> (\<not> is_nan K a \<and> \<not> is_nan K b \<longrightarrow>
           (eq_xf K a b \<longleftrightarrow> represented K a = represented K b)
           \<and> (less_xf K a b \<longleftrightarrow> ext_less (represented K a) (represented K b)))"
  using nan_unordered [of K a b] signed_zeros_compare [OF assms(1)]
    eq_xf_represented [OF assms] less_xf_represented [OF assms]
  by blast

theorem C7_comparison_witness:
  "consts_ok sample_consts
   \<and> canonical sample_consts \<lparr> sign_m = 1, bn_exp_m = 0, bn_m = 3 \<rparr>
   \<and> canonical sample_consts \<lparr> sign_m = 1, bn_exp_m = 1, bn_m = 5 \<rparr>
   \<and> \<not> is_nan sample_consts \<lparr> sign_m = 1, bn_exp_m = 0, bn_m = 3 \<rparr>
   \<and> \<not> is_nan sample_consts \<lparr> sign_m = 1, bn_exp_m = 1, bn_m = 5 \<rparr>
   \<and> less_xf sample_consts \<lparr> sign_m = 1, bn_exp_m = 0, bn_m = 3 \<rparr>
         \<lparr> sign_m = 1, bn_exp_m = 1, bn_m = 5 \<rparr>
   \<and> ext_less (represented sample_consts \<lparr> sign_m = 1, bn_exp_m = 0, bn_m = 3 \<rparr>)
         (represented sample_consts \<lparr> sign_m = 1, bn_exp_m = 1, bn_m = 5 \<rparr>)
   \<and> represented sample_consts \<lparr> sign_m = 1, bn_exp_m = 0, bn_m = 3 \<rparr>
         \<noteq> represented sample_consts \<lparr> sign_m = 1, bn_exp_m = 1, bn_m = 5 \<rparr>
   \<and> canonical sample_consts (NaN sample_consts)
   \<and> is_nan sample_consts (NaN sample_consts)
   \<and> \<not> eq_xf sample_consts (NaN sample_consts) (NaN sample_consts)"
proof -
  let ?a = "\<lparr> sign_m = 1, bn_exp_m = 0, bn_m = 3 \<rparr>"
  let ?b = "\<lparr> sign_m = 1, bn_exp_m = 1, bn_m = 5 \<rparr>"
  have c: "canonical sample_consts ?a" "canonical sample_consts ?b"
    "\<not> is_nan sample_consts ?a" "\<not> is_nan sample_consts ?b"
    by (simp_all add: xf_eval)
  have l: "less_xf sample_consts ?a ?b" "\<not> eq_xf sample_consts ?a ?b"
    by (simp_all add: less_xf_def eq_xf_def UnsignedLess_def ScaleAndCompare_def xf_eval)
  have r: "ext_less (represented sample_consts ?a) (represented sample_consts ?b)"
    "represented sample_consts ?a \<noteq> represented sample_consts ?b"
    using C7_comparison [OF sample_consts_ok c(1,2)] c(3,4) l by blast+
  have n: "canonical sample_consts (NaN sample_consts)" "is_nan sample_consts (NaN sample_consts)"
    using canonical_special(3) [OF sample_consts_ok, of 1] special_simps(1) [of sample_consts]
    by simp_all
  have e: "\<not> eq_xf sample_consts (NaN sample_consts) (NaN sample_consts)"
    using C7_comparison [OF sample_consts_ok n(1) n(1)] n(2) by blast
  show ?thesis using sample_consts_ok c l(1) r n e by (intro conjI)
qed

section \<open>Rounding at a tie\<close>














section \<open>Decimal digits\<close>

lemmas dec_eval = GetDecimalDigits_def BN_bn2dec.simps digit_char_def round_up_test_def
  IncrementDecimalDigits_def BN_lshift_def Let_def round_half_even_rule_def
  char_of_def bit_iff_odd

text \<open>
  C8. The claim asks for round-half-to-even on the discarded decimal digits.  The value
  \<open>126 = 63 * 2 ^ 1\<close> formatted with at most 2 significant digits discards the digit 6, a
  fraction above one half, so the rule of the claim increments the kept digits 12 to 13.  The
  test of lines 477-479 does not: the first discarded digit is at least '5', but the lowest
  kept digit is even and no later discarded digit is nonzero.  \<^verbatim>\<open>GetDecimalDigits\<close> returns
  the digits 12 with exponent 3, that is 0.12e3, where correct rounding gives 0.13e3.
\<close>

theorem C8_above_half_not_rounded_up:
  "is_normal sample_consts \<lparr> sign_m = 1, bn_exp_m = 1, bn_m = 63 \<rparr>
   \<and> canonical sample_consts \<lparr> sign_m = 1, bn_exp_m = 1, bn_m = 63 \<rparr>
   \<and> value_of \<lparr> sign_m = 1, bn_exp_m = 1, bn_m = 63 \<rparr> = 126
   \<and> BN_bn2dec 126 = ''126''
   \<and> round_half_even_rule 126 1
   \<and> \<not> round_up_test ''126'' 2
   \<and> GetDecimalDigits \<lparr> sign_m = 1, bn_exp_m = 1, bn_m = 63 \<rparr> 2 = (3, ''12'')
   \<and> IncrementDecimalDigits ''12'' = ''13''"
  by (simp add: dec_eval xf_eval value_of_def char_of_def bit_iff_odd)

section \<open>Scaling by a power of two\<close>

text \<open>
  For every admissible choice of the constants, \<^verbatim>\<open>ldexp\<close> applied to 1 and an exponent below
  \<open>kMinExp - 1\<close> returns the normal value \<open>2 ^ kMinExp\<close>, although \<^verbatim>\<open>Canonicalize\<close> turns
  the exactly scaled value into +0.
\<close>

lemma ldexp_one_below_range:
  assumes K: "consts_ok K" and e: "e < kMinExp K - 1"
  shows "ldexp_xf K \<lparr> sign_m = 1, bn_exp_m = 0, bn_m = 1 \<rparr> e
           = \<lparr> sign_m = 1, bn_exp_m = kMinExp K, bn_m = 1 \<rparr>"
    and "is_normal K (ldexp_xf K \<lparr> sign_m = 1, bn_exp_m = 0, bn_m = 1 \<rparr> e)"
    and "Canonicalize K \<lparr> sign_m = 1, bn_exp_m = 0 + e, bn_m = 1 \<rparr> = SignedZero K 1"
proof -
  note c = consts_okD [OF K]
  let ?a = "\<lparr> sign_m = 1, bn_exp_m = 0, bn_m = 1 \<rparr>"
  let ?r = "\<lparr> sign_m = 1, bn_exp_m = kMinExp K, bn_m = 1 \<rparr>"
  have na: "is_normal K ?a" using c(4) by (intro normal_below [OF K]) simp
  have nr: "is_normal K ?r" using c(3,4) by (intro normal_below [OF K]) simp
  have xa: "exp_xf ?a = 1" by (simp add: exp_xf_def BN_num_bits_def bitlen_numeral)
  have cl: "min (kMaxExp K) (max (kMinExp K) e) = kMinExp K"
    using e c(3,4) by simp
  have l: "ldexp_xf K ?a e = Canonicalize K ?r"
    using na by (simp add: ldexp_xf_def Let_def xa cl)
  have xr: "exp_xf ?r = kMinExp K + 1" by (simp add: exp_xf_def BN_num_bits_def bitlen_numeral)
  have o: "odd_part 1 = 1" using odd_part_of_odd [of 1] by simp
  have z: "low_zero_bits_of_byte (Suc 0) = 0" by (simp add: low_zero_bits_of_byte.simps [of "Suc 0"])
  have "Canonicalize K ?r = ?r"
    using Canonicalize_spec [OF K nr] c(3,4,5) by (simp add: xr o z bitlen_numeral)
  then show r: "ldexp_xf K ?a e = ?r" using l by simp
  show "is_normal K (ldexp_xf K ?a e)" using nr by (simp only: r)
  have ne: "is_normal K \<lparr> sign_m = 1, bn_exp_m = 0 + e, bn_m = 1 \<rparr>"
    using e c(3,4) by (intro normal_below [OF K]) simp
  have "exp_xf \<lparr> sign_m = 1, bn_exp_m = 0 + e, bn_m = 1 \<rparr> < kMinExp K"
    using e by (simp add: exp_xf_def BN_num_bits_def bitlen_numeral)
  then show "Canonicalize K \<lparr> sign_m = 1, bn_exp_m = 0 + e, bn_m = 1 \<rparr> = SignedZero K 1"
    using Canonicalize_spec [OF K ne] by simp
qed

text \<open>
  C10. \<^verbatim>\<open>Canonicalize\<close> saturates as the claim says (lemma \<open>Canonicalize_saturates\<close>), and
  \<^verbatim>\<open>ldexp\<close> relies on it: its comment on lines 790-791 says that the exponent argument is
  first clamped "so that (kMinExp - 1) <= (a_exp + exp) <= (kMaxExp + 1)", which leaves an
  underflow for \<^verbatim>\<open>Canonicalize\<close> to turn into a signed zero.  The lower bound of line 794,
  \<^verbatim>\<open>kMinExp - 1 + a_exp\<close>, has the sign of \<^verbatim>\<open>a_exp\<close> reversed.  With the exponent range
  \<open>[-200000000, 200000000]\<close>, \<open>ldexp(1, -300000000)\<close> stands for \<open>2 ^ - 300000000\<close>, which is below the exponent
  range: \<^verbatim>\<open>Canonicalize\<close> applied to the exactly scaled value gives +0, but the clamp replaces
  the argument by -200000000 and \<^verbatim>\<open>ldexp\<close> returns the normal value \<open>2 ^ - 200000000\<close>.  The
  same clamp makes \<open>ldexp(2 ^ 150000000, -150000001)\<close> return \<open>2 ^ 100000000\<close>, where the
  exact result 1/2 is representable.  An overflow does saturate: \<open>ldexp(1, 300000000)\<close> is
  +infinity.
\<close>

theorem C10_ldexp_underflow_not_saturated:
  "canonical sample_consts \<lparr> sign_m = 1, bn_exp_m = 0, bn_m = 1 \<rparr>
   \<and> is_normal sample_consts \<lparr> sign_m = 1, bn_exp_m = 0, bn_m = 1 \<rparr>
   \<and> value_of \<lparr> sign_m = 1, bn_exp_m = 0, bn_m = 1 \<rparr> = 1
   \<and> exp_xf \<lparr> sign_m = 1, bn_exp_m = 0 + (- 300000000), bn_m = 1 \<rparr> < kMinExp sample_consts
   \<and> Canonicalize sample_consts \<lparr> sign_m = 1, bn_exp_m = 0 + (- 300000000), bn_m = 1 \<rparr>
       = SignedZero sample_consts 1
   \<and> ldexp_xf sample_consts \<lparr> sign_m = 1, bn_exp_m = 0, bn_m = 1 \<rparr> (- 300000000)
       = \<lparr> sign_m = 1, bn_exp_m = - 200000000, bn_m = 1 \<rparr>
   \<and> is_normal sample_consts
         (ldexp_xf sample_consts \<lparr> sign_m = 1, bn_exp_m = 0, bn_m = 1 \<rparr> (- 300000000))
   \<and> \<not> is_zero sample_consts
         (ldexp_xf sample_consts \<lparr> sign_m = 1, bn_exp_m = 0, bn_m = 1 \<rparr> (- 300000000))
   \<and> canonical sample_consts \<lparr> sign_m = 1, bn_exp_m = 150000000, bn_m = 1 \<rparr>
   \<and> Canonicalize sample_consts \<lparr> sign_m = 1, bn_exp_m = 150000000 + (- 150000001), bn_m = 1 \<rparr>
       = \<lparr> sign_m = 1, bn_exp_m = - 1, bn_m = 1 \<rparr>
   \<and> ldexp_xf sample_consts \<lparr> sign_m = 1, bn_exp_m = 150000000, bn_m = 1 \<rparr> (- 150000001)
       = \<lparr> sign_m = 1, bn_exp_m = 100000000, bn_m = 1 \<rparr>
   \<and> ldexp_xf sample_consts \<lparr> sign_m = 1, bn_exp_m = 0, bn_m = 1 \<rparr> 300000000
       = Infinity sample_consts 1"
  by (simp add: ldexp_xf_def xf_eval value_of_def)

section \<open>Conversion from and to double\<close>

lemma pack_fields:
  fixes s e f :: nat
  assumes e: "e < 2048" and f: "f < 4503599627370496"
  shows "(s * 9223372036854775808 + e * 4503599627370496 + f) div 9223372036854775808 = s"
    and "(s * 9223372036854775808 + e * 4503599627370496 + f) div 4503599627370496 mod 2048 = e"
    and "(s * 9223372036854775808 + e * 4503599627370496 + f) mod 4503599627370496 = f"
proof -
  let ?x = "s * 9223372036854775808 + e * 4503599627370496 + f"
  let ?y = "4503599627370496 * (2048 * s + e) + f"
  have x: "?x = ?y" by simp
  have f0: "f div 4503599627370496 = 0" using f by (rule div_less)
  have e0: "e div 2048 = 0" using e by (rule div_less)
  have "?y div 4503599627370496 = (2048 * s + e) + f div 4503599627370496"
    by (rule div_mult_self4) simp
  then have "?y div 4503599627370496 = 2048 * s + e" by (simp only: f0 add_0_right)
  then have d: "?x div 4503599627370496 = 2048 * s + e" by (simp only: x)
  have "?y mod 4503599627370496 = f mod 4503599627370496" by (rule mod_mult_self4)
  also have "\<dots> = f" using f by (rule mod_less)
  finally show "?x mod 4503599627370496 = f" by (simp only: x)
  have "(2048 * s + e) mod 2048 = e mod 2048" by (rule mod_mult_self4)
  also have "\<dots> = e" using e by (rule mod_less)
  finally show "?x div 4503599627370496 mod 2048 = e" by (simp only: d)
  have "(2048 * s + e) div 2048 = s + e div 2048" by (rule div_mult_self4) simp
  then have "(2048 * s + e) div 2048 = s" by (simp only: e0 add_0_right)
  then have "?x div 4503599627370496 div 2048 = s" by (simp only: d)
  moreover have "?x div 4503599627370496 div 2048 = ?x div (4503599627370496 * 2048)"
    by (rule div_mult2_eq [symmetric])
  moreover have "(4503599627370496::nat) * 2048 = 9223372036854775808" by simp
  ultimately show "?x div 9223372036854775808 = s" by (simp only:)
qed

lemma unpack_fields:
  fixes n :: nat
  shows "n div 9223372036854775808 * 9223372036854775808
      + n div 4503599627370496 mod 2048 * 4503599627370496 + n mod 4503599627370496 = n"
proof -
  have a: "n = 4503599627370496 * (n div 4503599627370496) + n mod 4503599627370496" by simp
  have b: "n div 4503599627370496
      = 2048 * (n div 4503599627370496 div 2048) + n div 4503599627370496 mod 2048" by simp
  have "n div 4503599627370496 div 2048 = n div (4503599627370496 * 2048)"
    by (rule div_mult2_eq [symmetric])
  then have c: "n div 4503599627370496 div 2048 = n div 9223372036854775808" by simp
  show ?thesis using a b c by linarith
qed

lemma unat_lt64: "unat (d :: 64 word) < 18446744073709551616"
  using unsigned_less [of d, where 'a = nat] by simp

lemma field_bounds: "d_sign d < 2" "d_exp d < 2048" "d_frac d < 4503599627370496"
  using unat_lt64 [of d] by (simp_all add: d_sign_def d_exp_def d_frac_def)

lemma unat_mk_double:
  assumes "s < 2" "e < 2048" "f < 4503599627370496"
  shows "unat (mk_double s e f) = s * 9223372036854775808 + e * 4503599627370496 + f"
proof -
  have "s * 9223372036854775808 + e * 4503599627370496 + f < 18446744073709551616"
    using assms by linarith
  then show ?thesis by (simp only: mk_double_def unat_of_nat) simp
qed

lemma mk_double_fields:
  assumes "s < 2" "e < 2048" "f < 4503599627370496"
  shows "d_sign (mk_double s e f) = s" "d_exp (mk_double s e f) = e" "d_frac (mk_double s e f) = f"
  using pack_fields [OF assms(2,3), of s]
  by (simp_all add: d_sign_def d_exp_def d_frac_def unat_mk_double [OF assms])

lemma mk_double_of_fields: "mk_double (d_sign d) (d_exp d) (d_frac d) = d"
proof -
  have "d_sign d * 2 ^ 63 + d_exp d * 2 ^ 52 + d_frac d = unat d"
    using unpack_fields [of "unat d"] by (simp add: d_sign_def d_exp_def d_frac_def)
  then show ?thesis by (simp only: mk_double_def) simp
qed

lemma bitlen_53:
  assumes "4503599627370496 \<le> M" "M < 9007199254740992"
  shows "bitlen (int M) = 53"
proof -
  have "bitlen (int M) \<le> 53" using assms(2) by (simp add: bitlen_le_iff_power)
  moreover have "53 \<le> bitlen (int M)" using assms(1) by (simp add: bitlen_ge_iff_power)
  ultimately show ?thesis by simp
qed

lemma round_pos_normal:
  assumes M: "4503599627370496 \<le> M" "M < 9007199254740992" and e: "- 1074 \<le> e" "e \<le> 971"
  shows "round_pos M e = nat (e + 1075) * 4503599627370496 + (M - 4503599627370496)"
proof -
  have k: "bitlen (int M) = 53" by (rule bitlen_53 [OF M])
  have n: "nat (e + 1075) = Suc (nat (e + 1074))" using e by linarith
  have b: "nat (e + 1074) \<le> 2045" using e by linarith
  then have "nat (e + 1074) * 4503599627370496 \<le> 2045 * 4503599627370496"
    by (rule mult_le_mono1)
  then have lt: "nat (e + 1074) * 4503599627370496 + M < 9218868437227405312"
    using M(2) by simp
  have "round_pos M e = nat (e + 1074) * 4503599627370496 + M"
    using M e lt by (simp add: round_pos_def k Let_def max_def)
  also have "\<dots> = nat (e + 1075) * 4503599627370496 + (M - 4503599627370496)"
    using M(1) by (simp add: n)
  finally show ?thesis .
qed

lemma round_pos_subnormal:
  assumes M: "4503599627370496 \<le> M" "M < 9007199254740992" and e: "e < - 1074"
    and F: "M = F * 2 ^ nat (- 1074 - e)"
  shows "round_pos M e = F"
proof -
  have k: "bitlen (int M) = 53" by (rule bitlen_53 [OF M])
  let ?s = "nat (- 1074 - e)"
  have s: "0 < ?s" using e by simp
  have p: "(2::nat) \<le> 2 ^ ?s" using s by (metis One_nat_def Suc_leI power_increasing power_one_right numeral_2_eq_2 one_le_numeral)
  have d: "M div 2 ^ ?s = F" "M mod 2 ^ ?s = 0" by (simp_all add: F)
  have r: "rne_shift M ?s = F" by (simp add: rne_shift_def Let_def d)
  have "F * 2 \<le> F * 2 ^ ?s" using p by (rule mult_le_mono2)
  then have "F < 4503599627370496" using M(2) F by linarith
  then have lt: "F < 9218868437227405312" by simp
  have q: "max (- 1074) (53 + e - 53) = - 1074" using e by simp
  show ?thesis
    using M e lt r by (simp add: round_pos_def k Let_def q)
qed

lemma ldexp_d_finite:
  assumes "e < 2047" "0 < e" "f < 4503599627370496"
  shows "ldexp_d (mk_double 0 e f) n = of_nat (round_pos (4503599627370496 + f) (int e - 1075 + n))"
proof -
  have e: "e < 2048" using assms(1) by simp
  note fl = mk_double_fields [OF _ e assms(3), of 0, simplified]
  show ?thesis
    using assms by (simp add: ldexp_d_def d_int_mant_def d_int_exp_def fl)
qed

lemma of_nat_bits:
  "(of_nat (e * 4503599627370496 + f) :: 64 word) = mk_double 0 e f"
  by (simp only: mk_double_def) simp

lemma double_of_uint64_scaled:
  assumes M0: "4503599627370496 \<le> M0" "M0 < 9007199254740992"
    and mo: "M0 = mo * 2 ^ t"
  shows "t \<le> 52" and "double_of_uint64 mo = mk_double 0 (1075 - t) (M0 - 4503599627370496)"
proof -
  have pos: "0 < mo" using M0(1) mo by (cases "mo = 0") auto
  have ipos: "0 < int mo" using pos by simp
  have "bitlen (int M0) = bitlen (int mo * 2 ^ t)" by (simp add: mo)
  also have "\<dots> = bitlen (int mo) + int t" by (rule bitlen_pow2 [OF ipos])
  finally have k: "bitlen (int mo) = 53 - int t" using bitlen_53 [OF M0] by simp
  have "0 < bitlen (int mo)"
    using ipos bitlen_eq_zero_iff [of "int mo"] bitlen_nonneg [of "int mo"] by linarith
  then show t: "t \<le> 52" using k by linarith
  have n1: "nat (int t) = t" by simp
  have n2: "nat (1074 - int t) = 1074 - t" using t by linarith
  have "(1074 - t) * 4503599627370496 \<le> 1074 * 4503599627370496"
    by (rule mult_le_mono1) simp
  then have lt: "(1074 - t) * 4503599627370496 + M0 < 9218868437227405312"
    using M0(2) by simp
  have "round_pos mo 0 = (1074 - t) * 4503599627370496 + M0"
    using pos t lt by (simp add: round_pos_def k Let_def max_def n2 mo)
  also have "\<dots> = (1075 - t) * 4503599627370496 + (M0 - 4503599627370496)"
  proof -
    have "1075 - t = Suc (1074 - t)" using t by simp
    then show ?thesis using M0(1) by simp
  qed
  finally show "double_of_uint64 mo = mk_double 0 (1075 - t) (M0 - 4503599627370496)"
    by (simp only: double_of_uint64_def of_nat_bits)
qed

lemma to_double_core:
  assumes M0: "4503599627370496 \<le> M0" "M0 < 9007199254740992"
    and mo: "M0 = mo * 2 ^ t"
  shows "ldexp_d (double_of_uint64 mo) (e + int t) = of_nat (round_pos M0 e)"
proof -
  note s = double_of_uint64_scaled [OF M0 mo]
  have a: "1075 - t < 2047" "0 < 1075 - t" using s(1) by simp_all
  have f: "M0 - 4503599627370496 < 4503599627370496" using M0 by simp
  have m: "4503599627370496 + (M0 - 4503599627370496) = M0" using M0(1) by simp
  have x: "int (1075 - t) - 1075 + (e + int t) = e" using s(1) by simp
  show ?thesis
    by (simp only: s(2) ldexp_d_finite [OF a f] m x)
qed

lemma subnormal_scaled:
  assumes "0 < F" "F < 4503599627370496"
  shows "nat (bitlen (int F)) \<le> 52" "0 < bitlen (int F)"
    and "4503599627370496 \<le> F * 2 ^ (53 - nat (bitlen (int F)))"
    and "F * 2 ^ (53 - nat (bitlen (int F))) < 9007199254740992"
proof -
  let ?k = "bitlen (int F)"
  have ipos: "0 < int F" using assms(1) by simp
  show kp: "0 < ?k"
    using ipos bitlen_eq_zero_iff [of "int F"] bitlen_nonneg [of "int F"] by linarith
  have "?k \<le> 52" using assms(2) by (simp add: bitlen_le_iff_power)
  then show k52: "nat ?k \<le> 52" by simp
  let ?c = "53 - nat ?k"
  have "bitlen (int F * 2 ^ ?c) = ?k + int ?c" by (rule bitlen_pow2 [OF ipos])
  also have "\<dots> = 53" using kp k52 by linarith
  finally have b: "bitlen (int (F * 2 ^ ?c)) = 53" by simp
  have "53 \<le> bitlen (int (F * 2 ^ ?c))" using b by simp
  then have "2 ^ 52 \<le> int (F * 2 ^ ?c)" by (simp only: bitlen_ge_iff_power) simp
  then show "4503599627370496 \<le> F * 2 ^ ?c"
    using of_nat_le_iff [of 4503599627370496 "F * 2 ^ ?c", where 'a = int] by simp
  have "bitlen (int (F * 2 ^ ?c)) \<le> 53" using b by simp
  then have "int (F * 2 ^ ?c) < 2 ^ 53" by (simp only: bitlen_le_iff_power) simp
  then show "F * 2 ^ ?c < 9007199254740992"
    using of_nat_less_iff [of "F * 2 ^ ?c" 9007199254740992, where 'a = int] by simp
qed

lemma frexp_ldexp_cast:
  assumes f: "f < 4503599627370496"
  shows "uint64_of_double (ldexp_d (mk_double 0 1022 f) 53) = 4503599627370496 + f"
proof -
  have "ldexp_d (mk_double 0 1022 f) 53 = of_nat (round_pos (4503599627370496 + f) 0)"
    using ldexp_d_finite [of 1022 f 53] f by simp
  also have "round_pos (4503599627370496 + f) 0 = 1075 * 4503599627370496 + f"
    using round_pos_normal [of "4503599627370496 + f" 0] f by simp
  also have "(of_nat (1075 * 4503599627370496 + f) :: 64 word) = mk_double 0 1075 f"
    by (rule of_nat_bits)
  finally have l: "ldexp_d (mk_double 0 1022 f) 53 = mk_double 0 1075 f" .
  have e: "(1075::nat) < 2048" by simp
  note fl = mk_double_fields [OF _ e f, of 0, simplified]
  show ?thesis
    by (simp add: l uint64_of_double_def d_int_exp_def d_int_mant_def fl)
qed

lemma of_double_normal:
  assumes E: "0 < d_exp d" "d_exp d \<noteq> 2047"
  shows "uint64_of_double (ldexp_d (frexp_frac (fabs_d d)) 53) = 4503599627370496 + d_frac d"
    and "frexp_exp (fabs_d d) = int (d_exp d) - 1022"
proof -
  note b = field_bounds [of d]
  note fl = mk_double_fields [OF _ b(2,3), of 0, simplified]
  have ff: "frexp_frac (fabs_d d) = mk_double 0 1022 (d_frac d)"
    using E by (simp add: frexp_frac_def fabs_d_def fl d_int_mant_def)
  show "uint64_of_double (ldexp_d (frexp_frac (fabs_d d)) 53) = 4503599627370496 + d_frac d"
    unfolding ff by (rule frexp_ldexp_cast [OF b(3)])
  show "frexp_exp (fabs_d d) = int (d_exp d) - 1022"
    using E by (simp add: frexp_exp_def fabs_d_def fl d_int_mant_def)
qed

lemma of_double_subnormal:
  assumes E: "d_exp d = 0" and F: "0 < d_frac d"
  shows "uint64_of_double (ldexp_d (frexp_frac (fabs_d d)) 53)
           = d_frac d * 2 ^ (53 - nat (bitlen (int (d_frac d))))"
    and "frexp_exp (fabs_d d) = bitlen (int (d_frac d)) - 1074"
proof -
  note b = field_bounds [of d]
  note fl = mk_double_fields [OF _ _ b(3), of 0 0, simplified]
  note sc = subnormal_scaled [OF F b(3)]
  let ?M = "d_frac d * 2 ^ (53 - nat (bitlen (int (d_frac d))))"
  have ff: "frexp_frac (fabs_d d) = mk_double 0 1022 (?M - 4503599627370496)"
    using E F by (simp add: frexp_frac_def fabs_d_def fl d_int_mant_def)
  have lt: "?M - 4503599627370496 < 4503599627370496" using sc(3,4) by linarith
  have "uint64_of_double (ldexp_d (frexp_frac (fabs_d d)) 53)
      = 4503599627370496 + (?M - 4503599627370496)"
    unfolding ff by (rule frexp_ldexp_cast [OF lt])
  also have "\<dots> = ?M" using sc(3) by linarith
  finally show "uint64_of_double (ldexp_d (frexp_frac (fabs_d d)) 53) = ?M" .
  show "frexp_exp (fabs_d d) = bitlen (int (d_frac d)) - 1074"
    using E F by (simp add: frexp_exp_def fabs_d_def fl d_int_mant_def)
qed

lemma double_parts:
  assumes fin: "d_exp d \<noteq> 2047" and nz: "\<not> (d_exp d = 0 \<and> d_frac d = 0)"
  obtains M0 ex where
    "uint64_of_double (ldexp_d (frexp_frac (fabs_d d)) 53) = M0"
    "frexp_exp (fabs_d d) = ex"
    "4503599627370496 \<le> M0" "M0 < 9007199254740992"
    "- 1073 \<le> ex" "ex \<le> 1024"
    "round_pos M0 (ex - 53) = d_exp d * 4503599627370496 + d_frac d"
proof (cases "d_exp d = 0")
  case True
  with nz have F: "0 < d_frac d" by simp
  note b = field_bounds [of d]
  note sc = subnormal_scaled [OF F b(3)]
  note p = of_double_subnormal [OF True F]
  let ?k = "bitlen (int (d_frac d))"
  let ?M = "d_frac d * 2 ^ (53 - nat ?k)"
  have e: "?k - 1074 - 53 < - 1074" using sc(1,2) by linarith
  have n: "nat (- 1074 - (?k - 1074 - 53)) = 53 - nat ?k" using sc(1,2) by linarith
  have "round_pos ?M (?k - 1074 - 53) = d_frac d"
    by (rule round_pos_subnormal [OF sc(3,4) e]) (simp only: n)
  then have r: "round_pos ?M (?k - 1074 - 53) = d_exp d * 4503599627370496 + d_frac d"
    using True by simp
  have x: "- 1073 \<le> ?k - 1074" "?k - 1074 \<le> 1024" using sc(1,2) by linarith+
  show ?thesis by (rule that [OF p sc(3,4) x r])
next
  case False
  then have E: "0 < d_exp d" by simp
  note b = field_bounds [of d]
  note p = of_double_normal [OF E fin]
  let ?M = "4503599627370496 + d_frac d"
  have M: "4503599627370496 \<le> ?M" "?M < 9007199254740992" using b(3) by simp_all
  have e: "- 1074 \<le> int (d_exp d) - 1022 - 53" "int (d_exp d) - 1022 - 53 \<le> 971"
    using E fin b(2) by linarith+
  have n: "nat (int (d_exp d) - 1022 - 53 + 1075) = d_exp d" by simp
  have "round_pos ?M (int (d_exp d) - 1022 - 53)
      = nat (int (d_exp d) - 1022 - 53 + 1075) * 4503599627370496 + (?M - 4503599627370496)"
    by (rule round_pos_normal [OF M e])
  then have r: "round_pos ?M (int (d_exp d) - 1022 - 53)
      = d_exp d * 4503599627370496 + d_frac d"
    by (simp only: n add_diff_cancel_left')
  have x: "- 1073 \<le> int (d_exp d) - 1022" "int (d_exp d) - 1022 \<le> 1024"
    using E fin b(2) by linarith+
  show ?thesis by (rule that [OF p M x r])
qed

lemma roundtrip_finite:
  assumes K: "consts_ok K"
    and cov: "kMinExp K \<le> - 1073" "1024 \<le> kMaxExp K" "53 \<le> kMaxPrec K"
    and fin: "d_exp d \<noteq> 2047" and nz: "\<not> (d_exp d = 0 \<and> d_frac d = 0)"
  shows "ToDouble K (ExactFloat_of_double K d) = d"
proof -
  obtain M0 ex where
    m: "uint64_of_double (ldexp_d (frexp_frac (fabs_d d)) 53) = M0"
    and x: "frexp_exp (fabs_d d) = ex"
    and r: "4503599627370496 \<le> M0" "M0 < 9007199254740992"
    and xr: "- 1073 \<le> ex" "ex \<le> 1024"
    and rp: "round_pos M0 (ex - 53) = d_exp d * 4503599627370496 + d_frac d"
    by (rule double_parts [OF fin nz])
  define sign :: int where "sign = (if signbit_d d then - 1 else 1)"
  define y where "y = \<lparr> sign_m = sign, bn_exp_m = ex - 53, bn_m = int M0 \<rparr>"
  define t where "t = low_zero_bits_of_byte M0"
  define mo where "mo = odd_part (int M0)"
  define X where "X = \<lparr> sign_m = sign, bn_exp_m = ex - 53 + int t, bn_m = mo \<rparr>"
  have of_d: "ExactFloat_of_double K d = Canonicalize K y"
    using fin by (simp add: ExactFloat_of_double_def isnan_d_def isinf_d_def Let_def
        kDoubleMantissaBits_def m x y_def sign_def)
  have pos: "0 < bn_m y" using r(1) by (simp add: y_def)
  have bl: "bitlen (int M0) = 53" by (rule bitlen_53 [OF r])
  have ny: "is_normal K y"
    unfolding y_def using xr cov by (intro normal_below [OF K]) simp
  have ey: "exp_xf y = ex" by (simp add: y_def exp_xf_def BN_num_bits_def bl)
  have ne: "int M0 \<noteq> 0" using r(1) by simp
  have blo: "bitlen mo + int t = 53"
    using bitlen_odd_part [OF ne] bl by (simp add: mo_def t_def)
  have mopos: "0 < mo" unfolding mo_def by (rule odd_part_pos [OF ne])
  have blm: "bitlen mo \<le> 53" using blo by simp
  have fits: "kMinExp K \<le> exp_xf y" "exp_xf y \<le> kMaxExp K"
    "bitlen (odd_part (bn_m y)) \<le> kMaxPrec K"
    using xr cov blm by (simp_all add: ey) (simp add: y_def mo_def)
  have cX: "Canonicalize K y = X"
    using Canonicalize_spec [OF K ny] pos fits by (simp add: y_def X_def mo_def t_def)
  have nX: "is_normal K X"
    using Canonicalize_exact(1) [OF K ny pos fits] by (simp only: cX)
  have pX: "prec X \<le> kDoubleMantissaBits"
    using blm mopos by (simp add: X_def prec_def BN_num_bits_def kDoubleMantissaBits_def)
  have M0mo: "M0 = nat mo * 2 ^ t"
  proof -
    have "int M0 = mo * 2 ^ t" using odd_part_mult [of "int M0"] by (simp add: mo_def t_def)
    also have "\<dots> = int (nat mo * 2 ^ t)" using mopos by simp
    finally show ?thesis by (simp only: int_int_eq)
  qed
  have core: "ldexp_d (double_of_uint64 (nat mo)) (ex - 53 + int t)
      = mk_double 0 (d_exp d) (d_frac d)"
    by (simp only: to_double_core [OF r M0mo] rp of_nat_bits)
  have "ToDouble K X = times_sign sign (mk_double 0 (d_exp d) (d_frac d))"
    using pX nX mopos core by (simp add: ToDouble_def ToDoubleHelper_def BN_ext_get_uint64_def X_def)
  also have "\<dots> = mk_double (d_sign d) (d_exp d) (d_frac d)"
  proof (cases "d_sign d = 1")
    case True
    note b = field_bounds [of d]
    note fl = mk_double_fields [OF _ b(2,3), of 0, simplified]
    show ?thesis using True by (simp add: times_sign_def sign_def signbit_d_def fl)
  next
    case False
    then have "d_sign d = 0" using field_bounds(1) [of d] by linarith
    then show ?thesis by (simp add: times_sign_def sign_def signbit_d_def)
  qed
  also have "\<dots> = d" by (rule mk_double_of_fields)
  finally show ?thesis by (simp only: of_d cX)
qed

lemmas d_eval = d_sign_def d_exp_def d_frac_def mk_double_def d_int_mant_def d_int_exp_def
  signbit_d_def isnan_d_def isinf_d_def fabs_d_def copysign_d_def d_zero_def d_infinity_def
  d_quiet_NaN_def rne_shift_def round_pos_def ldexp_d_def frexp_frac_def frexp_exp_def uint64_of_double_def
  double_of_uint64_def times_sign_def BN_ext_get_uint64_def ExactFloat_of_double_def
  ToDoubleHelper_def ToDouble_def kDoubleMantissaBits_def RoundToMaxPrec_def RoundToPowerOf2_def

text \<open>
  The model run on a few doubles: 1.0, the smallest denormal and -3.0 are decomposed exactly;
  \<open>2 ^ - 1075\<close> is halfway between 0 and the smallest denormal and rounds to the even 0,
  \<open>3 * 2 ^ - 1075\<close> rounds to the even second denormal, \<open>2 ^ 1024\<close> overflows to infinity, and
  \<open>2 ^ 53 + 1\<close> and \<open>2 ^ 53 + 3\<close> round to their even neighbours.
\<close>

lemma double_conversion_examples:
  "ExactFloat_of_double sample_consts 0x3FF0000000000000 = \<lparr> sign_m = 1, bn_exp_m = 0, bn_m = 1 \<rparr>"
  "ExactFloat_of_double sample_consts 0x0000000000000001 = \<lparr> sign_m = 1, bn_exp_m = - 1074, bn_m = 1 \<rparr>"
  "ExactFloat_of_double sample_consts 0xC008000000000000 = \<lparr> sign_m = - 1, bn_exp_m = 0, bn_m = 3 \<rparr>"
  "ToDouble sample_consts \<lparr> sign_m = 1, bn_exp_m = - 1075, bn_m = 1 \<rparr> = 0x0000000000000000"
  "ToDouble sample_consts \<lparr> sign_m = 1, bn_exp_m = - 1075, bn_m = 3 \<rparr> = 0x0000000000000002"
  "ToDouble sample_consts \<lparr> sign_m = 1, bn_exp_m = 1024, bn_m = 1 \<rparr> = 0x7FF0000000000000"
  "ToDouble sample_consts \<lparr> sign_m = 1, bn_exp_m = 0, bn_m = 9007199254740993 \<rparr> = 0x4340000000000000"
  "ToDouble sample_consts \<lparr> sign_m = 1, bn_exp_m = 0, bn_m = 9007199254740995 \<rparr> = 0x4340000000000002"
  by (simp_all add: d_eval xf_eval)

lemma sign_bit_restored:
  "mk_double (if (if signbit_d d then - 1 else (1::int)) < 0 then 1 else 0) e f
     = mk_double (d_sign d) e f"
proof (cases "d_sign d = 1")
  case True
  then show ?thesis by (simp add: signbit_d_def)
next
  case False
  then have "d_sign d = 0" using field_bounds(1) [of d] by linarith
  then show ?thesis by (simp add: signbit_d_def)
qed

lemma ToDouble_special:
  assumes K: "consts_ok K"
  shows "ToDouble K (SignedZero K s) = copysign_d d_zero s"
    and "ToDouble K (Infinity K s) = copysign_d d_infinity s"
    and "ToDouble K (NaN K) = d_quiet_NaN"
proof -
  note sd = special_distinct [OF K]
  show "ToDouble K (SignedZero K s) = copysign_d d_zero s"
    using sd(5) [of s] special_simps(2) [of K s]
    by (simp add: ToDouble_def ToDoubleHelper_def kDoubleMantissaBits_def)
      (simp add: SignedZero_def set_zero_def prec_def BN_num_bits_def)
  show "ToDouble K (Infinity K s) = copysign_d d_infinity s"
    using sd(6) [of s] sd(4) [of s] special_simps(3) [of K s]
    by (simp add: ToDouble_def ToDoubleHelper_def kDoubleMantissaBits_def)
      (simp add: Infinity_def set_inf_def prec_def BN_num_bits_def)
  have q: "d_exp d_quiet_NaN = 2047" "d_frac d_quiet_NaN = 2251799813685248"
    using mk_double_fields(2,3) [of 0 2047 2251799813685248] by (simp_all add: d_quiet_NaN_def)
  have n: "\<not> is_zero K (NaN K)" "\<not> is_inf K (NaN K)"
    using consts_okD [OF K]
    by (simp_all add: is_zero_def is_inf_def NaN_def set_nan_def)
  have "ToDouble K (NaN K) = copysign_d d_quiet_NaN 1"
    using sd(7) n
    by (simp add: ToDouble_def ToDoubleHelper_def kDoubleMantissaBits_def)
      (simp add: NaN_def set_nan_def prec_def BN_num_bits_def)
  also have "\<dots> = d_quiet_NaN" by (simp add: copysign_d_def q) (simp add: d_quiet_NaN_def)
  finally show "ToDouble K (NaN K) = d_quiet_NaN" .
qed

lemma roundtrip_nan:
  assumes K: "consts_ok K" and n: "isnan_d d"
  shows "ToDouble K (ExactFloat_of_double K d) = d_quiet_NaN"
proof -
  have "ExactFloat_of_double K d = NaN K"
    using n by (simp add: ExactFloat_of_double_def NaN_def)
  then show ?thesis by (simp only: ToDouble_special(3) [OF K])
qed

lemma roundtrip_inf:
  assumes K: "consts_ok K" and i: "isinf_d d"
  shows "ToDouble K (ExactFloat_of_double K d) = d"
proof -
  from i have f: "d_exp d = 2047" "d_frac d = 0" by (simp_all add: isinf_d_def)
  have "ExactFloat_of_double K d = Infinity K (if signbit_d d then - 1 else 1)"
    using i by (simp add: ExactFloat_of_double_def Infinity_def isnan_d_def isinf_d_def)
  then have "ToDouble K (ExactFloat_of_double K d)
      = copysign_d d_infinity (if signbit_d d then - 1 else 1)"
    by (simp only: ToDouble_special(2) [OF K])
  also have "\<dots> = mk_double (d_sign d) 2047 0"
    using mk_double_fields(2,3) [of 0 2047 0]
    by (simp add: copysign_d_def d_infinity_def sign_bit_restored)
  also have "\<dots> = d" using mk_double_of_fields [of d] by (simp add: f)
  finally show ?thesis .
qed

lemma roundtrip_zero:
  assumes K: "consts_ok K" and z: "d_exp d = 0" "d_frac d = 0"
  shows "ToDouble K (ExactFloat_of_double K d) = d"
proof -
  define sign :: int where "sign = (if signbit_d d then - 1 else 1)"
  have z0: "d_exp (mk_double 0 0 0) = 0" "d_frac (mk_double 0 0 0) = 0"
    using mk_double_fields(2,3) [of 0 0 0] by simp_all
  have m: "uint64_of_double (ldexp_d (frexp_frac (fabs_d d)) 53) = 0"
    by (simp add: fabs_d_def z frexp_frac_def ldexp_d_def d_int_mant_def z0
        uint64_of_double_def d_int_exp_def)
  have x: "frexp_exp (fabs_d d) = 0"
    by (simp add: fabs_d_def z frexp_exp_def d_int_mant_def z0)
  let ?y = "\<lparr> sign_m = sign, bn_exp_m = - 53, bn_m = 0 \<rparr>"
  have of_d: "ExactFloat_of_double K d = Canonicalize K ?y"
    using z by (simp add: ExactFloat_of_double_def isnan_d_def isinf_d_def m x sign_def
        kDoubleMantissaBits_def)
  have ny: "is_normal K ?y"
    using consts_okD [OF K] by (intro normal_below [OF K]) simp
  have "Canonicalize K ?y = SignedZero K sign"
    using Canonicalize_spec [OF K ny] by simp
  then have "ToDouble K (ExactFloat_of_double K d) = copysign_d d_zero sign"
    by (simp only: of_d ToDouble_special(1) [OF K])
  also have "\<dots> = mk_double (d_sign d) 0 0"
    by (simp add: copysign_d_def d_zero_def z0 sign_def sign_bit_restored)
  also have "\<dots> = d" using mk_double_of_fields [of d] by (simp add: z)
  finally show ?thesis .
qed

text \<open>
  Claim C1, as the code has it.  Converting a double to an ExactFloat and back returns the
  same 64 bits for every double that is not a NaN: both zeros, every denormal, every normal
  number and both infinities.  A NaN comes back as the default quiet NaN with a positive
  sign, whatever its sign and payload were, because \<^verbatim>\<open>set_nan\<close> stores the sign +1
  and no payload.  The exponent range and the precision limit of the absent header are
  taken as parameters; they have to cover the range of a double.
\<close>

theorem C1_double_round_trip:
  assumes "consts_ok K" and "kMinExp K \<le> - 1073" and "1024 \<le> kMaxExp K"
    and "53 \<le> kMaxPrec K"
  shows "ToDouble K (ExactFloat_of_double K d) = (if isnan_d d then d_quiet_NaN else d)"
proof (cases "isnan_d d")
  case True
  then show ?thesis using roundtrip_nan [OF assms(1) True] by simp
next
  case nn: False
  show ?thesis
  proof (cases "isinf_d d")
    case True
    then show ?thesis using roundtrip_inf [OF assms(1) True] nn by simp
  next
    case ni: False
    have fin: "d_exp d \<noteq> 2047"
    proof
      assume "d_exp d = 2047"
      then show False using nn ni by (simp add: isnan_d_def isinf_d_def)
    qed
    show ?thesis
    proof (cases "d_exp d = 0 \<and> d_frac d = 0")
      case True
      then have z: "d_exp d = 0" "d_frac d = 0" by simp_all
      show ?thesis using roundtrip_zero [OF assms(1) z] nn by simp
    next
      case False
      show ?thesis using roundtrip_finite [OF assms fin False] nn by simp
    qed
  qed
qed

theorem C1_double_round_trip_witness:
  "consts_ok sample_consts \<and> kMinExp sample_consts \<le> - 1073 \<and> 1024 \<le> kMaxExp sample_consts
   \<and> 53 \<le> kMaxPrec sample_consts \<and> \<not> isnan_d 0x8000000000000003
   \<and> ToDouble sample_consts (ExactFloat_of_double sample_consts 0x8000000000000003)
       = 0x8000000000000003"
proof -
  have k: "kMinExp sample_consts \<le> - 1073" "1024 \<le> kMaxExp sample_consts"
    "53 \<le> kMaxPrec sample_consts"
    by (simp_all add: sample_consts_def)
  have n: "\<not> isnan_d 0x8000000000000003"
    by (simp add: isnan_d_def d_exp_def d_frac_def)
  show ?thesis
    using C1_double_round_trip [OF sample_consts_ok k, of "0x8000000000000003"]
      sample_consts_ok k n by simp
qed

text \<open>
  The claim as the specification words it, for every double and bit for bit, fails at a
  NaN: the quiet NaN with the sign bit set comes back with the sign bit clear.
\<close>

theorem C1_nan_counterexample:
  "ToDouble sample_consts (ExactFloat_of_double sample_consts 0xFFF8000000000000)
     \<noteq> 0xFFF8000000000000"
  by (simp add: d_eval xf_eval)

section \<open>Canonical form of every constructed value\<close>

lemma frexp_exp_le: "frexp_exp x \<le> 1025"
proof -
  note b = field_bounds [of x]
  have "int (d_frac x) < 2 ^ 52" using b(3) by simp
  then have "bitlen (int (d_frac x)) \<le> 52"
    by (simp add: bitlen_le_iff_power)
  then show ?thesis using b(2) by (simp add: frexp_exp_def)
qed

lemma of_double_canonical:
  assumes K: "consts_ok K" and r: "1024 \<le> kMaxExp K"
  shows "canonical K (ExactFloat_of_double K d)"
proof -
  define sign :: int where "sign = (if signbit_d d then - 1 else 1)"
  have s: "sign = 1 \<or> sign = - 1" by (simp add: sign_def)
  show ?thesis
  proof (cases "isnan_d d")
    case True
    then have "ExactFloat_of_double K d = NaN K" by (simp add: ExactFloat_of_double_def NaN_def)
    then show ?thesis using canonical_special(3) [OF K s] by simp
  next
    case nn: False
    show ?thesis
    proof (cases "isinf_d d")
      case True
      then have "ExactFloat_of_double K d = Infinity K sign"
        using nn by (simp add: ExactFloat_of_double_def Infinity_def sign_def)
      then show ?thesis using canonical_special(2) [OF K s] by simp
    next
      case False
      let ?y = "\<lparr> sign_m = sign, bn_exp_m = frexp_exp (fabs_d d) - kDoubleMantissaBits,
        bn_m = int (uint64_of_double (ldexp_d (frexp_frac (fabs_d d)) kDoubleMantissaBits)) \<rparr>"
      have e: "ExactFloat_of_double K d = Canonicalize K ?y"
        using nn False by (simp add: ExactFloat_of_double_def sign_def)
      have "frexp_exp (fabs_d d) - kDoubleMantissaBits \<le> 2 * kMaxExp K"
        using frexp_exp_le [of "fabs_d d"] r by (simp add: kDoubleMantissaBits_def)
      then have n: "is_normal K ?y" by (rule normal_below [OF K])
      have "canonical K (Canonicalize K ?y)"
        using s n by (intro Canonicalize_canonical [OF K]) simp_all
      then show ?thesis by (simp only: e)
    qed
  qed
qed

lemma of_int_canonical:
  assumes K: "consts_ok K"
  shows "canonical K (ExactFloat_of_int K v)"
proof -
  let ?y = "\<lparr> sign_m = (if v \<ge> 0 then 1 else - 1), bn_exp_m = 0, bn_m = \<bar>v\<bar> \<rparr>"
  have "0 \<le> 2 * kMaxExp K" using consts_okD(4) [OF K] by simp
  then have n: "is_normal K ?y" by (rule normal_below [OF K])
  have "canonical K (Canonicalize K ?y)"
    using n by (intro Canonicalize_canonical [OF K]) simp_all
  then show ?thesis by (simp only: ExactFloat_of_int_def)
qed

lemma canonical_nonneg: "canonical K x \<Longrightarrow> 0 \<le> bn_m x"
  by (cases "is_normal K x") (simp_all add: canonical_def)

lemma RoundToPowerOf2_canonical:
  assumes K: "consts_ok K" and c: "canonical K x" and b: "bit_exp \<le> kMaxExp K"
  shows "canonical K (RoundToPowerOf2 K x bit_exp mode)"
proof (cases "bit_exp - bn_exp_m x \<le> 0")
  case True
  then show ?thesis using c by (simp add: RoundToPowerOf2_def)
next
  case False
  have q: "0 \<le> BN_rshift (bn_m x) (bit_exp - bn_exp_m x)"
    using canonical_nonneg [OF c] by (simp add: BN_rshift_def sgn_if pos_imp_zdiv_nonneg_iff)
  have G: "canonical K (Canonicalize K \<lparr> sign_m = sign_m x, bn_exp_m = bit_exp, bn_m = m \<rparr>)"
    if "0 \<le> m" for m
  proof -
    have "bit_exp \<le> 2 * kMaxExp K" using b consts_okD(4) [OF K] by simp
    then have n: "is_normal K \<lparr> sign_m = sign_m x, bn_exp_m = bit_exp, bn_m = m \<rparr>"
      by (rule normal_below [OF K])
    show ?thesis
      using canonical_sign [OF c] that n by (intro Canonicalize_canonical [OF K]) simp_all
  qed
  show ?thesis
    using False q by (simp add: RoundToPowerOf2_def Let_def G)
qed

lemma RoundToMaxPrec_canonical:
  assumes K: "consts_ok K" and c: "canonical K x" and p: "2 \<le> max_prec"
  shows "canonical K (RoundToMaxPrec K x max_prec mode)"
proof (cases "prec x - max_prec \<le> 0")
  case True
  then show ?thesis using c by (simp add: RoundToMaxPrec_def)
next
  case False
  then have "bn_m x \<noteq> 0" using p by (auto simp add: prec_def BN_num_bits_def)
  then have n: "is_normal K x" using canonical_specialD [OF c] by blast
  have "bn_exp_m x + (prec x - max_prec) \<le> kMaxExp K"
    using canonical_normalD(4) [OF c n] p by (simp add: exp_xf_def prec_def)
  then have "canonical K (RoundToPowerOf2 K x (bn_exp_m x + (prec x - max_prec)) mode)"
    by (rule RoundToPowerOf2_canonical [OF K c])
  then show ?thesis using False by (simp add: RoundToMaxPrec_def Let_def)
qed

lemma constructed_canonical:
  assumes K: "consts_ok K" and r: "1024 \<le> kMaxExp K" and x: "constructed K x"
  shows "canonical K x"
  using x
proof (induction rule: constructed.induct)
  case (of_double d)
  show ?case by (rule of_double_canonical [OF K r])
next
  case (of_int v)
  show ?case by (rule of_int_canonical [OF K])
next
  case (signed_zero s)
  then show ?case by (rule canonical_special(1) [OF K])
next
  case (infinity s)
  then show ?case by (rule canonical_special(2) [OF K])
next
  case nan
  show ?case by (rule canonical_special(3) [OF K, of 1]) simp
next
  case (neg a)
  have "- sign_m a = 1 \<or> - sign_m a = - 1" using canonical_sign [OF neg.IH] by auto
  then show ?case unfolding neg_xf_def by (rule canonical_CopyWithSign [OF neg.IH])
next
  case (plus a b)
  show ?case unfolding plus_xf_def
    by (rule SignedSum_canonical [OF K plus.IH canonical_sign [OF plus.IH(1)]
          canonical_sign [OF plus.IH(2)]])
next
  case (minus a b)
  have "- sign_m b = 1 \<or> - sign_m b = - 1" using canonical_sign [OF minus.IH(2)] by auto
  then show ?case unfolding minus_xf_def
    by (rule SignedSum_canonical [OF K minus.IH canonical_sign [OF minus.IH(1)]])
next
  case (times a b)
  show ?case by (rule times_canonical [OF K times.IH])
next
  case (round_to_power_of_2 a bit_exp mode)
  show ?case by (rule RoundToPowerOf2_canonical [OF K round_to_power_of_2.IH round_to_power_of_2.hyps(2)])
next
  case (round_to_max_prec a max_prec mode)
  show ?case by (rule RoundToMaxPrec_canonical [OF K round_to_max_prec.IH round_to_max_prec.hyps(2)])
next
  case (ceil a)
  have "0 \<le> kMaxExp K" using consts_okD(4) [OF K] by simp
  then show ?case unfolding ceil_xf_def by (rule RoundToPowerOf2_canonical [OF K ceil.IH])
next
  case (floor a)
  have "0 \<le> kMaxExp K" using consts_okD(4) [OF K] by simp
  then show ?case unfolding floor_xf_def by (rule RoundToPowerOf2_canonical [OF K floor.IH])
next
  case (trunc a)
  have "0 \<le> kMaxExp K" using consts_okD(4) [OF K] by simp
  then show ?case unfolding trunc_xf_def by (rule RoundToPowerOf2_canonical [OF K trunc.IH])
next
  case (round a)
  have "0 \<le> kMaxExp K" using consts_okD(4) [OF K] by simp
  then show ?case unfolding round_xf_def by (rule RoundToPowerOf2_canonical [OF K round.IH])
next
  case (rint a)
  have "0 \<le> kMaxExp K" using consts_okD(4) [OF K] by simp
  then show ?case unfolding rint_xf_def by (rule RoundToPowerOf2_canonical [OF K rint.IH])
next
  case (abs a)
  show ?case unfolding abs_xf_def by (rule canonical_CopyWithSign [OF abs.IH]) simp
next
  case (copysign a b)
  show ?case unfolding copysign_xf_def
    by (rule canonical_CopyWithSign [OF copysign.IH(1) canonical_sign [OF copysign.IH(2)]])
next
  case (fmax a b)
  then show ?case by (simp add: fmax_xf_def)
next
  case (fmin a b)
  then show ?case by (simp add: fmin_xf_def)
next
  case (frexp a)
  then show ?case using ldexp_canonical [OF K frexp.IH] by (simp add: frexp_xf_def)
next
  case (ldexp a e)
  show ?case by (rule ldexp_canonical [OF K ldexp.IH])
next
  case (scalbln a e)
  show ?case unfolding scalbln_xf_def by (rule ldexp_canonical [OF K scalbln.IH])
next
  case (logb a)
  have s: "(1::int) = 1 \<or> (1::int) = - 1" "(- 1::int) = 1 \<or> (- 1::int) = - 1" by simp_all
  show ?case
    using canonical_special(2) [OF K s(1)] canonical_special(2) [OF K s(2)]
      of_int_canonical [OF K] logb.IH
    by (simp add: logb_xf_def)
qed

lemma canonical_eq_identical:
  assumes ca: "canonical K a" and cb: "canonical K b" and e: "eq_xf K a b"
  shows "bn_exp_m a = bn_exp_m b" and "bn_m a = bn_m b" and "\<not> is_zero K a \<Longrightarrow> a = b"
proof -
  show x: "bn_exp_m a = bn_exp_m b"
    using e by (simp add: eq_xf_def split: if_splits)
  note pa = canonical_nonneg [OF ca] and pb = canonical_nonneg [OF cb]
  show m: "bn_m a = bn_m b"
  proof (cases "is_zero K a \<and> is_zero K b")
    case True
    then have "\<not> is_normal K a" "\<not> is_normal K b" by (simp_all add: is_normal_def)
    then show ?thesis using canonical_specialD [OF ca] canonical_specialD [OF cb] by simp
  next
    case False
    then have "BN_ucmp (bn_m a) (bn_m b) = 0"
      using e by (simp add: eq_xf_def split: if_splits)
    then have "\<bar>bn_m a\<bar> = \<bar>bn_m b\<bar>" by (simp add: BN_ucmp_def split: if_splits)
    then show ?thesis using pa pb by simp
  qed
  show "a = b" if "\<not> is_zero K a"
  proof -
    have "sign_m a = sign_m b"
      using e that by (simp add: eq_xf_def split: if_splits)
    then show ?thesis using x m by simp
  qed
qed

lemma canonical_value_identical:
  assumes K: "consts_ok K" and ca: "canonical K a" and cb: "canonical K b"
    and na: "is_normal K a" and nb: "is_normal K b" and v: "value_of a = value_of b"
  shows "a = b"
proof -
  have s: "\<not> is_nan K a" "\<not> is_nan K b" "\<not> is_zero K a" "\<not> is_zero K b"
    "\<not> is_inf K a" "\<not> is_inf K b"
    using na nb by (simp_all add: is_normal_def)
  have "represented K a = represented K b" using s v by (simp add: represented_def)
  then have "eq_xf K a b" using eq_xf_represented [OF K ca cb s(1,2)] by simp
  then show ?thesis using canonical_eq_identical(3) [OF ca cb] s(3) by simp
qed

lemma canonical_zero_or_odd: "canonical K x \<Longrightarrow> bn_m x = 0 \<or> odd (bn_m x)"
  by (cases "is_normal K x") (simp_all add: canonical_def)

text \<open>
  Claim C6, as the code has it.  Every value built from the constructors and operations is in
  canonical form: the sign is +1 or -1, a normal value has an odd mantissa, an exponent
  within range and at most \<open>kMaxPrec\<close> mantissa bits, and zero, infinity and NaN have the
  mantissa 0; so the mantissa is zero or odd.  Two normal values that stand for the same
  number are the same triple of sign, exponent and mantissa.  Two values that \<^verbatim>\<open>operator==\<close>
  finds equal have the same exponent and mantissa fields, and the same sign unless they are
  zeros: +0 and -0 are equal and differ in the sign field.
\<close>

theorem C6_canonical_form:
  assumes "consts_ok K" and "1024 \<le> kMaxExp K" and "constructed K x" and "constructed K y"
  shows "canonical K x \<and> (bn_m x = 0 \<or> odd (bn_m x))
     \<and> (is_normal K x \<and> is_normal K y \<and> value_of x = value_of y \<longrightarrow> x = y)
     \<and> (eq_xf K x y \<longrightarrow> bn_exp_m x = bn_exp_m y \<and> bn_m x = bn_m y \<and> (\<not> is_zero K x \<longrightarrow> x = y))"
proof -
  have cx: "canonical K x" by (rule constructed_canonical [OF assms(1,2,3)])
  have cy: "canonical K y" by (rule constructed_canonical [OF assms(1,2,4)])
  have a: "bn_m x = 0 \<or> odd (bn_m x)" by (rule canonical_zero_or_odd [OF cx])
  have b: "is_normal K x \<and> is_normal K y \<and> value_of x = value_of y \<longrightarrow> x = y"
    using canonical_value_identical [OF assms(1) cx cy] by blast
  have c: "eq_xf K x y \<longrightarrow> bn_exp_m x = bn_exp_m y \<and> bn_m x = bn_m y \<and> (\<not> is_zero K x \<longrightarrow> x = y)"
    using canonical_eq_identical [OF cx cy] by blast
  show ?thesis using cx a b c by (intro conjI)
qed

theorem C6_canonical_form_witness:
  "consts_ok sample_consts \<and> 1024 \<le> kMaxExp sample_consts
   \<and> constructed sample_consts (ExactFloat_of_int sample_consts 12)
   \<and> constructed sample_consts
        (times_xf sample_consts (ExactFloat_of_int sample_consts 3) (ExactFloat_of_int sample_consts 4))
   \<and> ExactFloat_of_int sample_consts 12 = \<lparr> sign_m = 1, bn_exp_m = 2, bn_m = 3 \<rparr>
   \<and> \<not> is_zero sample_consts (ExactFloat_of_int sample_consts 12)
   \<and> eq_xf sample_consts (ExactFloat_of_int sample_consts 12)
        (times_xf sample_consts (ExactFloat_of_int sample_consts 3) (ExactFloat_of_int sample_consts 4))
   \<and> canonical sample_consts (ExactFloat_of_int sample_consts 12)
   \<and> odd (bn_m (ExactFloat_of_int sample_consts 12))
   \<and> ExactFloat_of_int sample_consts 12
       = times_xf sample_consts (ExactFloat_of_int sample_consts 3) (ExactFloat_of_int sample_consts 4)"
proof -
  let ?x = "ExactFloat_of_int sample_consts 12"
  let ?y = "times_xf sample_consts (ExactFloat_of_int sample_consts 3) (ExactFloat_of_int sample_consts 4)"
  have k: "1024 \<le> kMaxExp sample_consts" by (simp add: sample_consts_def)
  have i: "constructed sample_consts (ExactFloat_of_int sample_consts 12)"
    "constructed sample_consts (ExactFloat_of_int sample_consts 3)"
    "constructed sample_consts (ExactFloat_of_int sample_consts 4)"
    by (rule constructed.of_int; simp add: INT_MIN_def INT_MAX_def)+
  have y: "constructed sample_consts ?y" by (rule constructed.times [OF i(2,3)])
  have v: "?x = \<lparr> sign_m = 1, bn_exp_m = 2, bn_m = 3 \<rparr>"
    by (simp add: ExactFloat_of_int_def xf_eval)
  have z: "\<not> is_zero sample_consts ?x"
    unfolding v by (simp add: is_zero_def sample_consts_def)
  have e: "eq_xf sample_consts ?x ?y"
    by (simp add: eq_xf_def ExactFloat_of_int_def xf_eval)
  have o: "odd (bn_m ?x)" unfolding v by simp
  note t = C6_canonical_form [OF sample_consts_ok k i(1) y]
  have c: "canonical sample_consts ?x" using t by simp
  have q: "?x = ?y" using t e z by simp
  show ?thesis using sample_consts_ok k i(1) y v z e c o q by (intro conjI)
qed

text \<open>
  The last part of the claim as the specification words it, that any two equal finite values
  have identical representations, fails at zero: \<^verbatim>\<open>ExactFloat(0)\<close> is +0, \<^verbatim>\<open>ExactFloat(-0.0)\<close>
  is -0, \<^verbatim>\<open>operator==\<close> finds them equal, and their sign fields differ.
\<close>

theorem C6_signed_zero_counterexample:
  "constructed sample_consts (ExactFloat_of_int sample_consts 0)
   \<and> constructed sample_consts (ExactFloat_of_double sample_consts 0x8000000000000000)
   \<and> ExactFloat_of_int sample_consts 0 = SignedZero sample_consts 1
   \<and> ExactFloat_of_double sample_consts 0x8000000000000000 = SignedZero sample_consts (- 1)
   \<and> eq_xf sample_consts (ExactFloat_of_int sample_consts 0)
        (ExactFloat_of_double sample_consts 0x8000000000000000)
   \<and> sign_m (ExactFloat_of_int sample_consts 0)
       \<noteq> sign_m (ExactFloat_of_double sample_consts 0x8000000000000000)
   \<and> ExactFloat_of_int sample_consts 0 \<noteq> ExactFloat_of_double sample_consts 0x8000000000000000"
proof -
  have a: "constructed sample_consts (ExactFloat_of_int sample_consts 0)"
    by (rule constructed.of_int) (simp_all add: INT_MIN_def INT_MAX_def)
  have b: "constructed sample_consts (ExactFloat_of_double sample_consts 0x8000000000000000)"
    by (rule constructed.of_double)
  have p: "ExactFloat_of_int sample_consts 0 = SignedZero sample_consts 1"
    by (simp add: ExactFloat_of_int_def xf_eval)
  have m: "ExactFloat_of_double sample_consts 0x8000000000000000 = SignedZero sample_consts (- 1)"
    by (simp add: d_eval xf_eval)
  have e: "eq_xf sample_consts (ExactFloat_of_int sample_consts 0)
        (ExactFloat_of_double sample_consts 0x8000000000000000)"
    unfolding p m by (simp add: eq_xf_def xf_eval)
  have s: "sign_m (ExactFloat_of_int sample_consts 0)
       \<noteq> sign_m (ExactFloat_of_double sample_consts 0x8000000000000000)"
    unfolding p m by (simp add: SignedZero_def set_zero_def)
  have n: "ExactFloat_of_int sample_consts 0 \<noteq> ExactFloat_of_double sample_consts 0x8000000000000000"
    using s by auto
  show ?thesis using a b p m e s n by (intro conjI)
qed

end
